theory Spec2Isabelle
  imports Complex_Main "HOL-Library.Sublist"
begin

section \<open>Strings and regular expressions\<close>

text \<open>
  The service \<^verbatim>\<open>StampSignatureService\<close> (src/services/stampSignatureService.ts) works on
  JavaScript strings. A text is modelled as a \<^typ>\<open>string\<close>; each \<^typ>\<open>char\<close> stands for one
  code unit below 256 (ASCII and Latin-1), which covers every character the patterns of the
  service mention.
\<close>

text \<open>
  Character classes are decided on the eight bits of a code unit (least significant first),
  which keeps the evaluation of the matcher on concrete texts cheap. The lemmas
  \<open>isDigit_iff\<close>, \<open>isWhite_iff\<close>, \<open>canon_letters\<close> and \<open>canon_others\<close> below state them by
  enumeration.

  \<^verbatim>\<open>\d\<close>: the digits are the code units 0x30 to 0x39.
\<close>

fun isDigit :: "char \<Rightarrow> bool" where
  "isDigit (Char b0 b1 b2 b3 b4 b5 b6 b7) =
     (\<not> b7 \<and> \<not> b6 \<and> b5 \<and> b4 \<and> (\<not> b3 \<or> (\<not> b2 \<and> \<not> b1)))"

text \<open>\<^verbatim>\<open>\s\<close> and \<^verbatim>\<open>String.prototype.trim\<close>: TAB, LF, VT, FF, CR (0x09 to 0x0D), SPACE (0x20) and
  NBSP (0xA0) are the white space and line terminator code units below 256.\<close>

fun isWhite :: "char \<Rightarrow> bool" where
  "isWhite (Char b0 b1 b2 b3 b4 b5 b6 b7) =
     (\<not> b6 \<and> \<not> b4 \<and>
       ((\<not> b7 \<and> \<not> b5 \<and> b3 \<and> ((\<not> b2 \<and> (b1 \<or> b0)) \<or> (b2 \<and> \<not> b1))) \<or>
        (b5 \<and> \<not> b3 \<and> \<not> b2 \<and> \<not> b1 \<and> \<not> b0)))"

text \<open>Canonicalisation under the \<^verbatim>\<open>i\<close> flag (without \<^verbatim>\<open>u\<close>): upper-casing, where a code unit of
  128 or more never canonicalises to an ASCII letter. So only the ASCII lower-case letters
  0x61 to 0x7A change: bit 5 is cleared.\<close>

fun canon :: "char \<Rightarrow> char" where
  "canon (Char b0 b1 b2 b3 b4 b5 b6 b7) =
     (if \<not> b7 \<and> b6 \<and> b5 \<and> (b0 \<or> b1 \<or> b2 \<or> b3 \<or> b4) \<and>
         \<not> (b4 \<and> b3 \<and> (b2 \<or> (b1 \<and> b0)))
      then Char b0 b1 b2 b3 b4 False b6 b7 else Char b0 b1 b2 b3 b4 b5 b6 b7)"

definition trim :: "string \<Rightarrow> string" where
  "trim s = rev (dropWhile isWhite (rev (dropWhile isWhite s)))"

datatype cclass = Digit | Space | OneOf string

fun in_class :: "cclass \<Rightarrow> char \<Rightarrow> bool" where
  "in_class Digit c = isDigit c"
| "in_class Space c = isWhite c"
| "in_class (OneOf cs) c = (c \<in> set cs)"

text \<open>
  The regular expressions of the service are sequences of two kinds of item: a greedy
  bounded repetition of a character class (\<^verbatim>\<open>\d{1,2}\<close>, \<^verbatim>\<open>\s+\<close>, \<^verbatim>\<open>[\/\-\.]\<close>, \<^verbatim>\<open>,?\<close>) and an
  alternation of literal words (\<^verbatim>\<open>(Jan|Feb|...)\<close>), compared case-insensitively when the
  expression carries the \<^verbatim>\<open>i\<close> flag.
\<close>

datatype rx = Rep cclass nat "nat option" | Words bool "string list"

type_synonym regex = "rx list"

fun lit :: "bool \<Rightarrow> string \<Rightarrow> string \<Rightarrow> string option" where
  "lit i [] s = Some s"
| "lit i (p # ps) [] = None"
| "lit i (p # ps) (c # cs) =
     (if (if i then canon p = canon c else p = c) then lit i ps cs else None)"

text \<open>
  A backtracking matcher: \<open>rx_run r s\<close> lists, in the order in which a backtracking engine
  tries them, the remainders of \<open>s\<close> after each way of matching \<open>r\<close> at the start of \<open>s\<close>.
  A greedy repetition tries the longest run first; an alternation tries its words from
  left to right.
\<close>

fun rx_step :: "rx \<Rightarrow> string \<Rightarrow> string list" where
  "rx_step (Rep cl lo hi) s =
     (let n = length (takeWhile (in_class cl) s);
          m = (case hi of None \<Rightarrow> n | Some h \<Rightarrow> min n h)
      in map (\<lambda>k. drop k s) (rev [lo..<Suc m]))"
| "rx_step (Words i ws) s = List.map_filter (\<lambda>w. lit i w s) ws"

fun rx_run :: "regex \<Rightarrow> string \<Rightarrow> string list" where
  "rx_run [] s = [s]"
| "rx_run (r # rs) s = concat (map (rx_run rs) (rx_step r s))"

text \<open>\<^verbatim>\<open>s.match(r)\<close> for a non-global \<open>r\<close>, used only as a truth value: is there a match
  starting anywhere in \<open>s\<close>?\<close>

fun rsearch :: "regex \<Rightarrow> string \<Rightarrow> bool" where
  "rsearch r [] = (rx_run r [] \<noteq> [])"
| "rsearch r (c # cs) = (rx_run r (c # cs) \<noteq> [] \<or> rsearch r cs)"

text \<open>
  \<^verbatim>\<open>Array.from(s.matchAll(r))\<close> for a global \<open>r\<close>, keeping the matched text
  \<^verbatim>\<open>match[0]\<close>: scan from the left, take the first (highest-priority) match at
  the earliest position, resume after its end; an empty match advances by one code unit.
\<close>

function matchAll :: "regex \<Rightarrow> string \<Rightarrow> string list" where
  "matchAll r s =
     (case rx_run r s of
        rest # _ \<Rightarrow>
          take (length s - length rest) s #
            (if length rest < length s then matchAll r rest
             else (case s of [] \<Rightarrow> [] | _ # cs \<Rightarrow> matchAll r cs))
      | [] \<Rightarrow> (case s of [] \<Rightarrow> [] | _ # cs \<Rightarrow> matchAll r cs))"
  by pat_completeness auto
termination
  by (relation "measure (\<lambda>(r, s). length s)") auto

declare matchAll.simps [simp del]

definition monthAbbrevs :: "string list" where
  "monthAbbrevs = [''Jan'', ''Feb'', ''Mar'', ''Apr'', ''May'', ''Jun'',
                   ''Jul'', ''Aug'', ''Sep'', ''Oct'', ''Nov'', ''Dec'']"

definition monthFull :: "string list" where
  "monthFull = [''January'', ''February'', ''March'', ''April'', ''May'', ''June'', ''July'',
                ''August'', ''September'', ''October'', ''November'', ''December'']"

definition sep :: rx where
  "sep = Rep (OneOf ''/-.'') 1 (Some 1)"

definition dig :: "nat \<Rightarrow> nat \<Rightarrow> rx" where
  "dig lo hi = Rep Digit lo (Some hi)"

definition spaces :: rx where
  "spaces = Rep Space 1 None"

definition DATE_PATTERNS :: "regex list" where
  "DATE_PATTERNS =
    [ [dig 1 2, sep, dig 1 2, sep, dig 4 4],
      [dig 1 2, sep, dig 1 2, sep, dig 4 4],
      [dig 4 4, sep, dig 1 2, sep, dig 1 2],
      [dig 1 2, spaces, Words True (monthAbbrevs @ monthFull), spaces, dig 4 4],
      [Words True (monthAbbrevs @ monthFull), spaces, dig 1 2,
       Rep (OneOf '','') 0 (Some 1), spaces, dig 4 4],
      [dig 1 2, sep, dig 1 2, sep, dig 2 2],
      [dig 1 2, Words True [''st'', ''nd'', ''rd'', ''th''], spaces,
       Words True (monthAbbrevs @ monthFull), spaces, dig 4 4] ]"

definition DATE_FORMAT_MAP :: "(string \<times> regex) list" where
  "DATE_FORMAT_MAP =
    [ (''DD/MM/YYYY'', [dig 1 2, Rep (OneOf ''/'') 1 (Some 1), dig 1 2,
                        Rep (OneOf ''/'') 1 (Some 1), dig 4 4]),
      (''DD-MM-YYYY'', [dig 1 2, Rep (OneOf ''-'') 1 (Some 1), dig 1 2,
                        Rep (OneOf ''-'') 1 (Some 1), dig 4 4]),
      (''DD.MM.YYYY'', [dig 1 2, Rep (OneOf ''.'') 1 (Some 1), dig 1 2,
                        Rep (OneOf ''.'') 1 (Some 1), dig 4 4]),
      (''YYYY-MM-DD'', [dig 4 4, Rep (OneOf ''-'') 1 (Some 1), dig 1 2,
                        Rep (OneOf ''-'') 1 (Some 1), dig 1 2]),
      (''DD MMM YYYY'', [dig 1 2, spaces, Words True monthAbbrevs]),
      (''DD MMMM YYYY'', [dig 1 2, spaces, Words True monthFull]),
      (''MMM DD, YYYY'', [Words True monthAbbrevs, spaces, dig 1 2,
                          Rep (OneOf '','') 0 (Some 1), spaces, dig 4 4]) ]"

section \<open>JavaScript built-ins used by the service\<close>

subsection \<open>\<^verbatim>\<open>parseInt\<close>, \<^verbatim>\<open>split\<close>, array access\<close>

definition hexVal :: "char \<Rightarrow> int option" where
  "hexVal = map_of (zip ''0123456789abcdefABCDEF''
                        [0, 1, 2, 3, 4, 5, 6, 7, 8, 9, 10, 11, 12, 13, 14, 15, 10, 11, 12, 13, 14, 15])"

definition digitVal :: "char \<Rightarrow> int" where
  "digitVal c = (case hexVal c of Some v \<Rightarrow> v | None \<Rightarrow> 0)"

text \<open>
  \<^verbatim>\<open>parseInt(s)\<close> without a radix: leading white space is skipped, a sign is read, a prefix
  \<^verbatim>\<open>0x\<close> switches to radix 16, and the longest run of digits of the radix is the value;
  no digit at all gives NaN (\<open>None\<close>). The value is kept as an exact integer (JavaScript
  rounds beyond \<open>2^53\<close>).
\<close>

definition parseInt :: "string \<Rightarrow> int option" where
  "parseInt s =
     (let s1 = dropWhile isWhite s;
          neg = (take 1 s1 = ''-'');
          s2 = (if take 1 s1 = ''-'' \<or> take 1 s1 = ''+'' then drop 1 s1 else s1);
          hex = (take 2 s2 = ''0x'' \<or> take 2 s2 = ''0X'');
          radix = (if hex then 16 else 10);
          s3 = (if hex then drop 2 s2 else s2);
          ds = takeWhile (\<lambda>c. case hexVal c of Some v \<Rightarrow> v < radix | None \<Rightarrow> False) s3;
          v = foldl (\<lambda>a c. a * radix + digitVal c) 0 ds
      in if ds = [] then None else Some (if neg then - v else v))"

text \<open>\<^verbatim>\<open>parts[i]\<close>: \<^verbatim>\<open>undefined\<close> (\<open>None\<close>) beyond the end of the array; \<^verbatim>\<open>parseInt(undefined)\<close>
  is NaN.\<close>

definition nth_opt :: "'a list \<Rightarrow> nat \<Rightarrow> 'a option" where
  "nth_opt xs i = (if i < length xs then Some (xs ! i) else None)"

definition parseIntU :: "string option \<Rightarrow> int option" where
  "parseIntU p = (case p of None \<Rightarrow> None | Some s \<Rightarrow> parseInt s)"

text \<open>\<^verbatim>\<open>s.split(/[...]/)\<close>: every separator character ends a piece.\<close>

fun split_each :: "(char \<Rightarrow> bool) \<Rightarrow> string \<Rightarrow> string \<Rightarrow> string list" where
  "split_each sp acc [] = [rev acc]"
| "split_each sp acc (c # cs) =
     (if sp c then rev acc # split_each sp [] cs else split_each sp (c # acc) cs)"

text \<open>\<^verbatim>\<open>s.split(/[...]+/)\<close>: a maximal run of separator characters ends a piece; the flag
  says that the previous character was a separator.\<close>

fun split_runs :: "(char \<Rightarrow> bool) \<Rightarrow> bool \<Rightarrow> string \<Rightarrow> string \<Rightarrow> string list" where
  "split_runs sp inrun acc [] = [rev acc]"
| "split_runs sp inrun acc (c # cs) =
     (if sp c then (if inrun then split_runs sp True [] cs
                    else rev acc # split_runs sp True [] cs)
      else split_runs sp False (c # acc) cs)"

definition includesStr :: "string \<Rightarrow> string \<Rightarrow> bool" where
  "includesStr s pat = sublist pat s"

definition startsWith :: "string \<Rightarrow> string \<Rightarrow> bool" where
  "startsWith s pat = prefix pat s"

subsection \<open>The \<^verbatim>\<open>Date\<close> object\<close>

text \<open>
  A \<^verbatim>\<open>Date\<close> holds a time value: milliseconds since 1970-01-01T00:00:00Z, or NaN for an
  invalid date (\<open>None\<close>). The calendar functions follow ECMA-262 (Day, DaysInYear,
  DayFromYear, MakeDay, LocalTime, UTC, TimeClip).

  What the service reads from its surroundings is collected in an environment: the clock
  (\<^verbatim>\<open>new Date()\<close>), the local time zone adjustment \<^verbatim>\<open>LocalTZA(t, isUTC)\<close> in milliseconds, and
  \<^verbatim>\<open>Date.parse\<close>, which ECMA-262 leaves to the implementation for every string outside the
  ISO format.
\<close>

record env =
  clock :: int
  LocalTZA :: "int \<Rightarrow> bool \<Rightarrow> int"
  DateParse :: "string \<Rightarrow> int option"

type_synonym JSDate = "int option"

definition msPerDay :: int where
  "msPerDay = 86400000"

definition Day :: "int \<Rightarrow> int" where
  "Day t = t div msPerDay"

definition DaysInYear :: "int \<Rightarrow> int" where
  "DaysInYear y = (if y mod 4 \<noteq> 0 then 365 else if y mod 100 \<noteq> 0 then 366
                   else if y mod 400 \<noteq> 0 then 365 else 366)"

definition DayFromYear :: "int \<Rightarrow> int" where
  "DayFromYear y = 365 * (y - 1970) + (y - 1969) div 4 - (y - 1901) div 100 + (y - 1601) div 400"

definition monthLengths :: "int \<Rightarrow> int list" where
  "monthLengths y = [31, if DaysInYear y = 366 then 29 else 28, 31, 30, 31, 30, 31, 31, 30, 31, 30, 31]"

definition MakeDay :: "int \<Rightarrow> int \<Rightarrow> int \<Rightarrow> int" where
  "MakeDay year month date =
     (let ym = year + month div 12; mn = month mod 12
      in DayFromYear ym + sum_list (take (nat mn) (monthLengths ym)) + date - 1)"

text \<open>
  From a day number back to the calendar: the Gregorian calendar repeats every 146097 days
  (400 years); inside a cycle starting at a multiple of 400, walk year by year, then month
  by month. A cycle has fewer than 401 years, so the year walk never runs out of steps
  (\<open>year_walk_bounds\<close>).
\<close>

fun year_walk :: "nat \<Rightarrow> int \<Rightarrow> int \<Rightarrow> int \<times> int" where
  "year_walk 0 y d = (y, d)"
| "year_walk (Suc n) y d =
     (if d < DaysInYear y then (y, d) else year_walk n (y + 1) (d - DaysInYear y))"

fun month_walk :: "int list \<Rightarrow> int \<Rightarrow> int \<Rightarrow> int \<times> int" where
  "month_walk [] m d = (m, d)"
| "month_walk (l # ls) m d = (if d < l then (m, d) else month_walk ls (m + 1) (d - l))"

definition yearDay :: "int \<Rightarrow> int \<times> int" where
  "yearDay day =
     (let z = day - DayFromYear 2000
      in year_walk 401 (2000 + 400 * (z div 146097)) (z mod 146097))"

definition YearFromTime :: "int \<Rightarrow> int" where
  "YearFromTime t = fst (yearDay (Day t))"

definition monthDate :: "int \<Rightarrow> int \<times> int" where
  "monthDate t = (case yearDay (Day t) of (y, d) \<Rightarrow> month_walk (monthLengths y) 0 d)"

definition MonthFromTime :: "int \<Rightarrow> int" where
  "MonthFromTime t = fst (monthDate t)"

definition DateFromTime :: "int \<Rightarrow> int" where
  "DateFromTime t = snd (monthDate t) + 1"

definition LocalTime :: "env \<Rightarrow> int \<Rightarrow> int" where
  "LocalTime e t = t + LocalTZA e t True"

definition UTC :: "env \<Rightarrow> int \<Rightarrow> int" where
  "UTC e t = t - LocalTZA e t False"

definition TimeClip :: "int \<Rightarrow> JSDate" where
  "TimeClip t = (if \<bar>t\<bar> \<le> 8640000000000000 then Some t else None)"

text \<open>\<^verbatim>\<open>new Date(year, month, day)\<close> on integers: local midnight of the given day, with
  months and days outside their range carried over, and a year from 0 to 99 taken as
  1900 + year.\<close>

definition newDate :: "env \<Rightarrow> int \<Rightarrow> int \<Rightarrow> int \<Rightarrow> JSDate" where
  "newDate e year month day =
     (let yr = (if 0 \<le> year \<and> year \<le> 99 then 1900 + year else year)
      in TimeClip (UTC e (MakeDay yr month day * msPerDay)))"

text \<open>\<^verbatim>\<open>new Date(string)\<close> and \<^verbatim>\<open>new Date()\<close>.\<close>

definition newDateFromString :: "env \<Rightarrow> string \<Rightarrow> JSDate" where
  "newDateFromString e s = (case DateParse e s of None \<Rightarrow> None | Some v \<Rightarrow> TimeClip v)"

definition newDateNow :: "env \<Rightarrow> JSDate" where
  "newDateNow e = Some (clock e)"

text \<open>\<^verbatim>\<open>getFullYear()\<close>: the year in local time, NaN for an invalid date.\<close>

definition getFullYear :: "env \<Rightarrow> JSDate \<Rightarrow> int option" where
  "getFullYear e d = map_option (\<lambda>t. YearFromTime (LocalTime e t)) d"

text \<open>Decimal digits of a number that is not negative, and padding with zeros on the left
  (\<^verbatim>\<open>padStart\<close>).\<close>

definition digitChar :: "int \<Rightarrow> char" where
  "digitChar d = ''0123456789'' ! nat d"

function dec :: "int \<Rightarrow> string" where
  "dec n = (if n < 10 then [digitChar n] else dec (n div 10) @ [digitChar (n mod 10)])"
  by pat_completeness auto
termination
  by (relation "measure nat") auto

declare dec.simps [simp del]

definition pad :: "nat \<Rightarrow> int \<Rightarrow> string" where
  "pad w n = replicate (w - length (dec n)) CHR ''0'' @ dec n"

datatype error = RangeError

text \<open>\<^verbatim>\<open>toISOString()\<close>: the UTC fields as \<^verbatim>\<open>YYYY-MM-DDTHH:mm:ss.sssZ\<close>, the year with a sign and
  six digits outside 0 to 9999; it throws a RangeError on an invalid date.\<close>

definition isoYear :: "int \<Rightarrow> string" where
  "isoYear y = (if 0 \<le> y \<and> y \<le> 9999 then pad 4 y
                else (if y < 0 then ''-'' else ''+'') @ pad 6 \<bar>y\<bar>)"

definition toISOString :: "JSDate \<Rightarrow> error + string" where
  "toISOString d =
     (case d of
        None \<Rightarrow> Inl RangeError
      | Some t \<Rightarrow>
          (let ms = t mod msPerDay
           in Inr (isoYear (YearFromTime t) @ ''-'' @ pad 2 (MonthFromTime t + 1) @ ''-'' @
                   pad 2 (DateFromTime t) @ ''T'' @ pad 2 (ms div 3600000) @ '':'' @
                   pad 2 (ms div 60000 mod 60) @ '':'' @ pad 2 (ms div 1000 mod 60) @ ''.'' @
                   pad 3 (ms mod 1000) @ ''Z'')))"

text \<open>\<^verbatim>\<open>s.split('T')[0]\<close>: the text before the first \<^verbatim>\<open>T\<close>.\<close>

definition beforeT :: "string \<Rightarrow> string" where
  "beforeT s = takeWhile (\<lambda>c. c \<noteq> CHR ''T'') s"

subsection \<open>Numbers\<close>

text \<open>
  A JavaScript number is an IEEE 754 double. A finite double is modelled by the real number
  it denotes, and \<open>double x\<close> is the double nearest to the real \<open>x\<close>, a tie going to the even
  significand: \<open>x\<close> is scaled by powers of two into the interval from 1 to 2, rounded to 52
  binary places and scaled back. This is the rounding of every literal and of every sum and
  difference in the normal range of the doubles (from \<open>2^-1022\<close> to \<open>2^1024\<close>), where the
  confidence scores lie; subnormal numbers and overflow are not modelled.
\<close>

fun scale_up :: "nat \<Rightarrow> real \<Rightarrow> real \<Rightarrow> real \<times> real" where
  "scale_up 0 x f = (x, f)"
| "scale_up (Suc n) x f = (if x < 1 then scale_up n (2 * x) (f / 2) else (x, f))"

fun scale_down :: "nat \<Rightarrow> real \<Rightarrow> real \<Rightarrow> real \<times> real" where
  "scale_down 0 x f = (x, f)"
| "scale_down (Suc n) x f = (if 2 \<le> x then scale_down n (x / 2) (2 * f) else (x, f))"

definition roundEven :: "real \<Rightarrow> int" where
  "roundEven y =
     (let n = \<lfloor>y\<rfloor>; r = y - of_int n
      in if r < 1 / 2 then n else if 1 / 2 < r then n + 1 else if even n then n else n + 1)"

definition double :: "real \<Rightarrow> real" where
  "double x =
     (if x = 0 then 0
      else (case (if \<bar>x\<bar> < 1 then scale_up 1022 \<bar>x\<bar> 1 else scale_down 1023 \<bar>x\<bar> 1) of
              (m, f) \<Rightarrow> sgn x * (of_int (roundEven (m * 2 ^ 52)) / 2 ^ 52) * f))"

section \<open>The date extraction of \<^verbatim>\<open>StampSignatureService\<close>\<close>

text \<open>The interface \<^verbatim>\<open>DateInformation\<close>; \<^verbatim>\<open>null\<close> is \<open>None\<close>. A confidence score is a
  double.\<close>

record DateInformation =
  Date :: "string option"
  Format :: "string option"
  Confidence :: real
  ExtractedFromText :: "string option"

text \<open>
  \<^verbatim>\<open>monthMap\<close> of \<^verbatim>\<open>parseDate\<close> is a plain object. The lookup \<^verbatim>\<open>monthMap[key]\<close> gives the number
  of an own key (the keys are case-sensitive), the function or object that \<^verbatim>\<open>Object.prototype\<close>
  holds under an inherited key, and \<^verbatim>\<open>undefined\<close> otherwise; \<^verbatim>\<open>monthMap[undefined]\<close> looks the
  key \<^verbatim>\<open>undefined\<close> up, which is missing.
\<close>

datatype lookup = Undefined | Own int | Inherited

definition monthKeys :: "(string \<times> int) list" where
  "monthKeys =
     [(''Jan'', 0), (''January'', 0), (''Feb'', 1), (''February'', 1), (''Mar'', 2), (''March'', 2),
      (''Apr'', 3), (''April'', 3), (''May'', 4), (''Jun'', 5), (''June'', 5),
      (''Jul'', 6), (''July'', 6), (''Aug'', 7), (''August'', 7), (''Sep'', 8), (''September'', 8),
      (''Oct'', 9), (''October'', 9), (''Nov'', 10), (''November'', 10), (''Dec'', 11), (''December'', 11)]"

definition objectPrototypeKeys :: "string list" where
  "objectPrototypeKeys =
     [''constructor'', ''hasOwnProperty'', ''isPrototypeOf'', ''propertyIsEnumerable'',
      ''toLocaleString'', ''toString'', ''valueOf'', ''__proto__'', ''__defineGetter__'',
      ''__defineSetter__'', ''__lookupGetter__'', ''__lookupSetter__'']"

definition monthMap :: "string \<Rightarrow> lookup" where
  "monthMap key =
     (case map_of monthKeys key of
        Some m \<Rightarrow> Own m
      | None \<Rightarrow> if key \<in> set objectPrototypeKeys then Inherited else Undefined)"

definition monthMapU :: "string option \<Rightarrow> lookup" where
  "monthMapU p = (case p of None \<Rightarrow> Undefined | Some k \<Rightarrow> monthMap k)"

text \<open>
  \<^verbatim>\<open>parseDate(dateString, format)\<close> returns \<^verbatim>\<open>null\<close> (\<open>None\<close>) or a \<^verbatim>\<open>Date\<close> object, which
  may be an invalid date (\<open>Some None\<close>). A NaN among day, month and year is \<open>None\<close>;
  \<^verbatim>\<open>new Date(year, month, day)\<close> with an inherited function or object for the month is an
  invalid date.
\<close>

definition parseDate :: "env \<Rightarrow> string \<Rightarrow> string \<Rightarrow> JSDate option" where
  "parseDate e dateString format =
     (if includesStr format ''MMM'' \<or> includesStr format ''MMMM'' then
        (let parts = split_runs (\<lambda>c. isWhite c \<or> c = CHR '','') False [] dateString;
             (day, month, year) =
               (if startsWith format ''DD''
                then (parseIntU (nth_opt parts 0), monthMapU (nth_opt parts 1),
                      parseIntU (nth_opt parts 2))
                else (parseIntU (nth_opt parts 1), monthMapU (nth_opt parts 0),
                      parseIntU (nth_opt parts 2)))
         in (case (month, day, year) of
               (Own m, Some d, Some y) \<Rightarrow> Some (newDate e y m d)
             | (Inherited, Some d, Some y) \<Rightarrow> Some None
             | _ \<Rightarrow> None))
      else
        (let parts = split_each (\<lambda>c. c \<in> set ''/-.'') [] dateString;
             (day, month, year) =
               (if startsWith format ''YYYY''
                then (parseIntU (nth_opt parts 2),
                      map_option (\<lambda>m. m - 1) (parseIntU (nth_opt parts 1)),
                      parseIntU (nth_opt parts 0))
                else (parseIntU (nth_opt parts 0),
                      map_option (\<lambda>m. m - 1) (parseIntU (nth_opt parts 1)),
                      map_option (\<lambda>y. if y < 100 then y + (if y < 50 then 2000 else 1900) else y)
                        (parseIntU (nth_opt parts 2))))
         in (case (day, month, year) of
               (Some d, Some m, Some y) \<Rightarrow> Some (newDate e y m d)
             | _ \<Rightarrow> None)))"

text \<open>\<^verbatim>\<open>calculateDateConfidence(dateString, parsedDate)\<close>. A comparison with NaN is false.
  Every literal is a double, and every subtraction and addition rounds its result to a
  double.\<close>

definition calculateDateConfidence :: "env \<Rightarrow> string \<Rightarrow> JSDate \<Rightarrow> real" where
  "calculateDateConfidence e dateString parsedDate =
     (let c0 = double 0.8;
          now = newDateNow e;
          yearDiff = (case (getFullYear e now, getFullYear e parsedDate) of
                        (Some a, Some b) \<Rightarrow> Some \<bar>a - b\<bar> | _ \<Rightarrow> None);
          c1 = (if (case yearDiff of Some v \<Rightarrow> v > 50 | None \<Rightarrow> False) then double (c0 - double 0.3) else c0);
          c2 = (if (case yearDiff of Some v \<Rightarrow> v > 100 | None \<Rightarrow> False) then double (c1 - double 0.4) else c1);
          c3 = (if includesStr dateString ''/'' \<or> includesStr dateString ''-'' then double (c2 + double 0.1)
                else c2);
          c4 = (if rsearch [dig 4 4] dateString then double (c3 + double 0.1) else c3);
          c5 = (if rsearch [Words True monthAbbrevs] dateString then double (c4 + double 0.1)
                else c4)
      in min (max c5 0) 1)"

text \<open>
  \<^verbatim>\<open>parseAndValidateDate(dateString)\<close>. The body of its \<^verbatim>\<open>try\<close> block is \<open>parseFormats\<close>
  followed by \<open>parseFallback\<close>: the loop over the entries of \<^verbatim>\<open>DATE_FORMAT_MAP\<close> returns at
  the first entry whose pattern matches and whose \<^verbatim>\<open>parseDate\<close> is not \<^verbatim>\<open>null\<close>; building the
  result calls \<^verbatim>\<open>toISOString\<close>, which may throw. The \<^verbatim>\<open>catch\<close> block turns every exception
  into \<^verbatim>\<open>null\<close>.
\<close>

definition parseFallback :: "env \<Rightarrow> string \<Rightarrow> error + DateInformation option" where
  "parseFallback e dateString =
     (let fallbackDate = newDateFromString e dateString
      in if fallbackDate \<noteq> None then
           (case toISOString fallbackDate of
              Inl err \<Rightarrow> Inl err
            | Inr isoStr \<Rightarrow> Inr (Some \<lparr>Date = Some (beforeT isoStr), Format = Some ''Auto-detected'',
                                    Confidence = double 0.6, ExtractedFromText = Some dateString\<rparr>))
         else Inr None)"

fun parseFormats :: "env \<Rightarrow> string \<Rightarrow> (string \<times> regex) list \<Rightarrow> error + DateInformation option" where
  "parseFormats e dateString [] = parseFallback e dateString"
| "parseFormats e dateString ((format, pattern) # rest) =
     (if rsearch pattern dateString then
        (case parseDate e dateString format of
           Some parsedDate \<Rightarrow>
             (case toISOString parsedDate of
                Inl err \<Rightarrow> Inl err
              | Inr isoStr \<Rightarrow>
                  Inr (Some \<lparr>Date = Some (beforeT isoStr), Format = Some format,
                             Confidence = calculateDateConfidence e dateString parsedDate,
                             ExtractedFromText = Some dateString\<rparr>))
         | None \<Rightarrow> parseFormats e dateString rest)
      else parseFormats e dateString rest)"

definition parseAndValidateDate :: "env \<Rightarrow> string \<Rightarrow> error + DateInformation option" where
  "parseAndValidateDate e dateString =
     (if dateString = [] then Inr None
      else (case parseFormats e dateString DATE_FORMAT_MAP of
              Inl err \<Rightarrow> Inr None
            | Inr r \<Rightarrow> Inr r))"

text \<open>
  \<^verbatim>\<open>extractDateFromText(text)\<close>: the inner loop over the matches of one pattern, the outer
  loop over \<^verbatim>\<open>DATE_PATTERNS\<close>; the state is (\<^verbatim>\<open>bestMatch\<close>, \<^verbatim>\<open>highestConfidence\<close>). An
  exception of \<^verbatim>\<open>parseAndValidateDate\<close> would leave both loops.
\<close>

fun scanMatches :: "env \<Rightarrow> string list \<Rightarrow> DateInformation option \<times> real
                    \<Rightarrow> error + (DateInformation option \<times> real)" where
  "scanMatches e [] st = Inr st"
| "scanMatches e (fullMatch # ms) (bestMatch, highestConfidence) =
     (case parseAndValidateDate e fullMatch of
        Inl err \<Rightarrow> Inl err
      | Inr None \<Rightarrow> scanMatches e ms (bestMatch, highestConfidence)
      | Inr (Some dateInfo) \<Rightarrow>
          (if Confidence dateInfo > highestConfidence
           then scanMatches e ms
                  (Some (dateInfo\<lparr>ExtractedFromText := Some fullMatch\<rparr>), Confidence dateInfo)
           else scanMatches e ms (bestMatch, highestConfidence)))"

fun scanPatterns :: "env \<Rightarrow> string \<Rightarrow> regex list \<Rightarrow> DateInformation option \<times> real
                     \<Rightarrow> error + (DateInformation option \<times> real)" where
  "scanPatterns e cleanText [] st = Inr st"
| "scanPatterns e cleanText (pattern # ps) st =
     (case scanMatches e (matchAll pattern cleanText) st of
        Inl err \<Rightarrow> Inl err
      | Inr st' \<Rightarrow> scanPatterns e cleanText ps st')"

definition extractDateFromText :: "env \<Rightarrow> string \<Rightarrow> error + DateInformation option" where
  "extractDateFromText e text =
     (if text = [] then Inr None
      else (case scanPatterns e (trim text) DATE_PATTERNS (None, 0) of
              Inl err \<Rightarrow> Inl err
            | Inr (bestMatch, highestConfidence) \<Rightarrow> Inr bestMatch))"

text \<open>
  \<^verbatim>\<open>analyzeDateConsistency(stampDate, signatureDate, documentDate)\<close>. The filter keeps an entry
  that is not \<^verbatim>\<open>null\<close> and whose \<^verbatim>\<open>Date\<close> is truthy: neither \<^verbatim>\<open>null\<close> nor the empty string.
  \<^verbatim>\<open>Math.min\<close> and \<^verbatim>\<open>Math.max\<close> give NaN when an argument is NaN, and a comparison with NaN
  is false.
\<close>

datatype consistency = Consistent | Inconsistent | Unknown

definition presentDate :: "DateInformation option \<Rightarrow> string option" where
  "presentDate d =
     (case d of None \<Rightarrow> None
      | Some i \<Rightarrow> (case Date i of None \<Rightarrow> None | Some s \<Rightarrow> if s = [] then None else Some s))"

fun mathMin :: "int option list \<Rightarrow> int option" where
  "mathMin [] = None"
| "mathMin [x] = x"
| "mathMin (x # xs) = (case (x, mathMin xs) of (Some a, Some b) \<Rightarrow> Some (min a b) | _ \<Rightarrow> None)"

fun mathMax :: "int option list \<Rightarrow> int option" where
  "mathMax [] = None"
| "mathMax [x] = x"
| "mathMax (x # xs) = (case (x, mathMax xs) of (Some a, Some b) \<Rightarrow> Some (max a b) | _ \<Rightarrow> None)"

definition analyzeDateConsistency ::
  "env \<Rightarrow> DateInformation option \<Rightarrow> DateInformation option \<Rightarrow> DateInformation option
   \<Rightarrow> consistency" where
  "analyzeDateConsistency e stampDate signatureDate documentDate =
     (let dates = List.map_filter presentDate [stampDate, signatureDate, documentDate]
      in if length dates < 2 then Unknown
         else
           (let dateValues = map (newDateFromString e) dates;
                minDate = mathMin dateValues;
                maxDate = mathMax dateValues
            in (case (maxDate, minDate) of
                  (Some mx, Some mn) \<Rightarrow>
                    (if real_of_int (mx - mn) / (1000 * 60 * 60 * 24) \<le> 30
                     then Consistent else Inconsistent)
                | _ \<Rightarrow> Inconsistent)))"

section \<open>Notions used to state the properties\<close>

text \<open>The candidates of a text: all matches of every pattern, in the order of the pattern
  table and, within a pattern, from left to right.\<close>

definition candidates :: "string \<Rightarrow> string list" where
  "candidates text = concat (map (\<lambda>pattern. matchAll pattern (trim text)) DATE_PATTERNS)"

text \<open>The candidates that parse, each with the record the extraction would keep for it.\<close>

definition keep :: "env \<Rightarrow> string \<Rightarrow> DateInformation option" where
  "keep e m = (case parseAndValidateDate e m of
                 Inr (Some dateInfo) \<Rightarrow> Some (dateInfo\<lparr>ExtractedFromText := Some m\<rparr>)
               | _ \<Rightarrow> None)"

definition parsedCandidates :: "env \<Rightarrow> string \<Rightarrow> DateInformation list" where
  "parsedCandidates e text = List.map_filter (keep e) (candidates text)"

text \<open>\<open>firstBest cs r\<close>: \<open>r\<close> is the first element of \<open>cs\<close> whose confidence is the highest of
  \<open>cs\<close>.\<close>

definition firstBest :: "DateInformation list \<Rightarrow> DateInformation \<Rightarrow> bool" where
  "firstBest cs r =
     (\<exists>i<length cs. cs ! i = r \<and> (\<forall>j<length cs. Confidence (cs ! j) \<le> Confidence r) \<and>
                     (\<forall>j<i. Confidence (cs ! j) < Confidence r))"

text \<open>\<open>spanWithin30Days e ds\<close>: every date string of \<open>ds\<close> is a valid date and the latest is
  at most 30 days after the earliest.\<close>

definition spanWithin30Days :: "env \<Rightarrow> string list \<Rightarrow> bool" where
  "spanWithin30Days e ds =
     (\<exists>ts. map (newDateFromString e) ds = map Some ts \<and>
           Max (set ts) - Min (set ts) \<le> 30 * msPerDay)"

text \<open>The current year and the year of a parsed date, both in local time.\<close>

definition currentYear :: "env \<Rightarrow> int" where
  "currentYear e = YearFromTime (LocalTime e (clock e))"

definition localYear :: "env \<Rightarrow> int \<Rightarrow> int" where
  "localYear e t = YearFromTime (LocalTime e t)"

definition clamp01 :: "real \<Rightarrow> real" where
  "clamp01 x = (if x < 0 then 0 else if 1 < x then 1 else x)"

text \<open>A run of four digits somewhere in the text; a month name or abbreviation somewhere in
  the text, in any letter case.\<close>

definition fourDigitRun :: "string \<Rightarrow> bool" where
  "fourDigitRun s = (\<exists>ds. length ds = 4 \<and> list_all isDigit ds \<and> sublist ds s)"

definition monthNameIn :: "string \<Rightarrow> bool" where
  "monthNameIn s = (\<exists>w \<in> set (monthAbbrevs @ monthFull). sublist (map canon w) (map canon s))"

text \<open>The shapes \<^verbatim>\<open>YYYY-MM-DD\<close> and, with an expanded year, \<^verbatim>\<open>+YYYYYY-MM-DD\<close> or
  \<^verbatim>\<open>-YYYYYY-MM-DD\<close>.\<close>

definition monthDayShape :: "string \<Rightarrow> bool" where
  "monthDayShape s =
     (length s = 6 \<and> s ! 0 = CHR ''-'' \<and> isDigit (s ! 1) \<and> isDigit (s ! 2) \<and>
      s ! 3 = CHR ''-'' \<and> isDigit (s ! 4) \<and> isDigit (s ! 5))"

definition isoDateShape :: "string \<Rightarrow> bool" where
  "isoDateShape s = (length s = 10 \<and> list_all isDigit (take 4 s) \<and> monthDayShape (drop 4 s))"

definition isoExpandedShape :: "string \<Rightarrow> bool" where
  "isoExpandedShape s =
     (length s = 13 \<and> (s ! 0 = CHR ''+'' \<or> s ! 0 = CHR ''-'') \<and>
      list_all isDigit (take 6 (drop 1 s)) \<and> monthDayShape (drop 7 s))"

text \<open>The date part of \<^verbatim>\<open>toISOString\<close>.\<close>

definition isoDatePart :: "int \<Rightarrow> string" where
  "isoDatePart t = isoYear (YearFromTime t) @ ''-'' @ pad 2 (MonthFromTime t + 1) @ ''-'' @
                   pad 2 (DateFromTime t)"

subsection \<open>Concrete environments\<close>

text \<open>
  A \<^verbatim>\<open>Date.parse\<close> that accepts the ISO date-only form \<^verbatim>\<open>YYYY-MM-DD\<close> as ECMA-262 prescribes
  (midnight UTC of a day that exists) and rejects every other string.
\<close>

definition isoDateParse :: "string \<Rightarrow> int option" where
  "isoDateParse s =
     (if isoDateShape s then
        (case (parseInt (take 4 s), parseInt (take 2 (drop 5 s)), parseInt (drop 8 s)) of
           (Some y, Some m, Some d) \<Rightarrow>
             (if 1 \<le> m \<and> m \<le> 12 \<and> 1 \<le> d \<and> d \<le> monthLengths y ! nat (m - 1)
              then Some (MakeDay y (m - 1) d * msPerDay) else None)
         | _ \<Rightarrow> None)
      else None)"

text \<open>The clock at 2025-11-01T12:26:40Z, in UTC and in Indian Standard Time (UTC+05:30), and
  the clock at 2026-01-01T00:00:00Z in UTC.\<close>

definition env_utc :: env where
  "env_utc = \<lparr>clock = 1762000000000, LocalTZA = (\<lambda>t isUTC. 0), DateParse = isoDateParse\<rparr>"

definition env_ist :: env where
  "env_ist = \<lparr>clock = 1762000000000, LocalTZA = (\<lambda>t isUTC. 19800000), DateParse = isoDateParse\<rparr>"

text \<open>An engine that, like V8 and SpiderMonkey, also understands \<^verbatim>\<open>March 18, 2024\<close>
  (as local midnight), in UTC.\<close>

definition env_legacy :: env where
  "env_legacy = \<lparr>clock = 1762000000000, LocalTZA = (\<lambda>t isUTC. 0),
                  DateParse = (\<lambda>s. if s = ''March 18, 2024'' then Some 1710720000000
                                   else isoDateParse s)\<rparr>"

text \<open>The same engine with the clock at 2025-06-15T15:06:40Z.\<close>

definition env_legacy_june :: env where
  "env_legacy_june = \<lparr>clock = 1750000000000, LocalTZA = (\<lambda>t isUTC. 0),
                       DateParse = (\<lambda>s. if s = ''March 18, 2024'' then Some 1710720000000
                                        else isoDateParse s)\<rparr>"

definition env_utc_2026 :: env where
  "env_utc_2026 = \<lparr>clock = 1767225600000, LocalTZA = (\<lambda>t isUTC. 0), DateParse = isoDateParse\<rparr>"

section \<open>Character classes by enumeration\<close>

lemma digits_enum: "filter isDigit Enum.enum = ''0123456789''"
  by code_simp

lemma isDigit_iff: "isDigit c \<longleftrightarrow> c \<in> set ''0123456789''"
proof -
  have "isDigit c \<longleftrightarrow> c \<in> set (filter isDigit Enum.enum)"
    by (simp add: enum_UNIV)
  then show ?thesis unfolding digits_enum .
qed

lemma white_enum:
  "filter isWhite Enum.enum = [CHR 0x09, CHR 0x0A, CHR 0x0B, CHR 0x0C, CHR 0x0D, CHR 0x20, CHR 0xA0]"
  by code_simp

lemma isWhite_iff:
  "isWhite c \<longleftrightarrow> c \<in> set [CHR 0x09, CHR 0x0A, CHR 0x0B, CHR 0x0C, CHR 0x0D, CHR 0x20, CHR 0xA0]"
proof -
  have "isWhite c \<longleftrightarrow> c \<in> set (filter isWhite Enum.enum)"
    by (simp add: enum_UNIV)
  then show ?thesis unfolding white_enum .
qed

lemma canon_letters:
  "map canon ''abcdefghijklmnopqrstuvwxyz'' = ''ABCDEFGHIJKLMNOPQRSTUVWXYZ''"
  by code_simp

lemma canon_others:
  "filter (\<lambda>c. canon c \<noteq> c) Enum.enum = ''abcdefghijklmnopqrstuvwxyz''"
  by code_simp

section \<open>The double arithmetic of the scores\<close>

text \<open>The doubles of the decimal literals, and the rounded sums and differences that the
  scoring can form, each argument written as the exact real that is rounded.\<close>


lemma double_08: "double (4 / 5) = 3602879701896397 / 4503599627370496"
  by code_simp


lemma double_03: "double (3 / 10) = 5404319552844595 / 18014398509481984"
  by code_simp


lemma double_04: "double (2 / 5) = 3602879701896397 / 9007199254740992"
  by code_simp


lemma double_01: "double (1 / 10) = 3602879701896397 / 36028797018963968"
  by code_simp


lemma double_06: "double (3 / 5) = 5404319552844595 / 9007199254740992"
  by code_simp


lemma double_09: "double (9 / 10) = 8106479329266893 / 9007199254740992"
  by code_simp


lemma double_07: "double (7 / 10) = 3152519739159347 / 4503599627370496"
  by code_simp


lemma double_02: "double (1 / 5) = 3602879701896397 / 18014398509481984"
  by code_simp


lemma sub_08_03: "double (9007199254740993 / 18014398509481984) = 1 / 2"
  by code_simp


lemma sub_05_04: "double (900719925474099 / 9007199254740992) = 900719925474099 / 9007199254740992"
  by code_simp


lemma add_a0: "double (32425917317067573 / 36028797018963968) = 8106479329266893 / 9007199254740992"
  by code_simp


lemma add_a1: "double (36028797018963969 / 36028797018963968) = 1"
  by code_simp


lemma add_a2: "double (39631676720860365 / 36028797018963968) = 2476979795053773 / 2251799813685248"
  by code_simp


lemma add_b0: "double (21617278211378381 / 36028797018963968) = 5404319552844595 / 9007199254740992"
  by code_simp


lemma add_b1: "double (25220157913274777 / 36028797018963968) = 3152519739159347 / 4503599627370496"
  by code_simp


lemma add_b2: "double (28823037615171173 / 36028797018963968) = 7205759403792793 / 9007199254740992"
  by code_simp


lemma add_c0: "double (7205759403792793 / 36028797018963968) = 7205759403792793 / 36028797018963968"
  by code_simp


lemma add_c1: "double (5404319552844595 / 18014398509481984) = 5404319552844595 / 18014398509481984"
  by code_simp


lemma add_c2: "double (14411518807585587 / 36028797018963968) = 3602879701896397 / 9007199254740992"
  by code_simp

lemmas double_values = double_08 double_03 double_04 double_01 double_06 double_09 double_07 double_02
  sub_08_03 sub_05_04 add_a0 add_a1 add_a2 add_b0 add_b1 add_b2 add_c0 add_c1 add_c2

lemma score_cases:
  fixes a b c d f :: bool
  assumes "b \<longrightarrow> a"
  defines "S \<equiv> (let c0 = double 0.8;
                    c1 = (if a then double (c0 - double 0.3) else c0);
                    c2 = (if b then double (c1 - double 0.4) else c1);
                    c3 = (if c then double (c2 + double 0.1) else c2);
                    c4 = (if d then double (c3 + double 0.1) else c3);
                    c5 = (if f then double (c4 + double 0.1) else c4)
                in min (max c5 0) 1)"
  shows "\<bar>S - clamp01 (0.8 - (if a then 0.3 else 0) - (if b then 0.4 else 0) + (if c then 0.1 else 0)
                         + (if d then 0.1 else 0) + (if f then 0.1 else 0))\<bar> \<le> 1 / 2 ^ 53 \<and>
         0 < S \<and> S \<le> 1"
  using assms(1) unfolding S_def Let_def
  by (cases a; cases b; cases c; cases d; cases f; simp add: double_values clamp01_def)

lemma score_table:
  fixes a b c d f :: bool
  assumes "b \<longrightarrow> a"
  shows "(let c0 = double 0.8;
              c1 = (if a then double (c0 - double 0.3) else c0);
              c2 = (if b then double (c1 - double 0.4) else c1);
              c3 = (if c then double (c2 + double 0.1) else c2);
              c4 = (if d then double (c3 + double 0.1) else c3);
              c5 = (if f then double (c4 + double 0.1) else c4)
          in min (max c5 0) 1) =
         (let k = (if c then 1 else 0) + (if d then 1 else 0) + (if f then 1 else (0::nat))
          in if b then (if k = 0 then 900719925474099 / 9007199254740992
                        else if k = 1 then 7205759403792793 / 36028797018963968
                        else if k = 2 then 5404319552844595 / 18014398509481984
                        else 3602879701896397 / 9007199254740992)
             else if a then (if k = 0 then 1 / 2
                             else if k = 1 then 5404319552844595 / 9007199254740992
                             else if k = 2 then 3152519739159347 / 4503599627370496
                             else 7205759403792793 / 9007199254740992)
             else (if k = 0 then 3602879701896397 / 4503599627370496
                   else if k = 1 then 8106479329266893 / 9007199254740992
                   else 1))"
  using assms unfolding Let_def
  by (cases a; cases b; cases c; cases d; cases f; simp add: double_values)

text \<open>The score and the confidence of the fallback, tabulated: these equations are used to
  evaluate the extraction on concrete texts.\<close>

lemma calculateDateConfidence_table [code]:
  "calculateDateConfidence e dateString parsedDate =
     (let yearDiff = (case (getFullYear e (newDateNow e), getFullYear e parsedDate) of
                        (Some a, Some b) \<Rightarrow> Some \<bar>a - b\<bar> | _ \<Rightarrow> None);
          a = (case yearDiff of Some v \<Rightarrow> v > 50 | None \<Rightarrow> False);
          b = (case yearDiff of Some v \<Rightarrow> v > 100 | None \<Rightarrow> False);
          k = (if includesStr dateString ''/'' \<or> includesStr dateString ''-'' then 1 else 0) +
              (if rsearch [dig 4 4] dateString then 1 else 0) +
              (if rsearch [Words True monthAbbrevs] dateString then 1 else (0::nat))
      in if b then (if k = 0 then 900719925474099 / 9007199254740992
                    else if k = 1 then 7205759403792793 / 36028797018963968
                    else if k = 2 then 5404319552844595 / 18014398509481984
                    else 3602879701896397 / 9007199254740992)
         else if a then (if k = 0 then 1 / 2
                         else if k = 1 then 5404319552844595 / 9007199254740992
                         else if k = 2 then 3152519739159347 / 4503599627370496
                         else 7205759403792793 / 9007199254740992)
         else (if k = 0 then 3602879701896397 / 4503599627370496
               else if k = 1 then 8106479329266893 / 9007199254740992
               else 1))"
proof -
  define yd where "yd = (case (getFullYear e (newDateNow e), getFullYear e parsedDate) of
                          (Some a, Some b) \<Rightarrow> Some \<bar>a - b\<bar> | _ \<Rightarrow> None)"
  have ba: "(case yd of Some v \<Rightarrow> v > 100 | None \<Rightarrow> False) \<longrightarrow>
            (case yd of Some v \<Rightarrow> v > 50 | None \<Rightarrow> False)"
    by (cases yd) auto
  from score_table[OF ba, of "includesStr dateString ''/'' \<or> includesStr dateString ''-''"
      "rsearch [dig 4 4] dateString" "rsearch [Words True monthAbbrevs] dateString"]
  show ?thesis
    unfolding calculateDateConfidence_def Let_def yd_def by blast
qed

lemma parseFallback_table [code]:
  "parseFallback e dateString =
     (let fallbackDate = newDateFromString e dateString
      in if fallbackDate \<noteq> None then
           (case toISOString fallbackDate of
              Inl err \<Rightarrow> Inl err
            | Inr isoStr \<Rightarrow> Inr (Some \<lparr>Date = Some (beforeT isoStr), Format = Some ''Auto-detected'',
                                    Confidence = 5404319552844595 / 9007199254740992,
                                    ExtractedFromText = Some dateString\<rparr>))
         else Inr None)"
proof -
  have h: "double 0.6 = 5404319552844595 / 9007199254740992"
    using double_06 by simp
  show ?thesis unfolding parseFallback_def h ..
qed

section \<open>The scan over the candidates\<close>

lemma parseAndValidateDate_total: "\<exists>r. parseAndValidateDate e s = Inr r"
  by (simp add: parseAndValidateDate_def split: sum.splits)

lemma scanMatches_total: "\<exists>st'. scanMatches e ms st = Inr st'"
proof (induction ms arbitrary: st)
  case Nil
  show ?case by simp
next
  case (Cons m ms)
  obtain b h where st: "st = (b, h)" by (cases st)
  obtain r where r: "parseAndValidateDate e m = Inr r"
    using parseAndValidateDate_total by blast
  show ?case
    using Cons.IH r unfolding st by (cases r) simp_all
qed

lemma scanMatches_append:
  "scanMatches e (xs @ ys) st =
     (case scanMatches e xs st of Inl err \<Rightarrow> Inl err | Inr st' \<Rightarrow> scanMatches e ys st')"
proof (induction xs arbitrary: st)
  case Nil
  show ?case by simp
next
  case (Cons m ms)
  obtain b h where st: "st = (b, h)" by (cases st)
  show ?case
    unfolding st by (simp add: Cons.IH split: sum.splits option.splits)
qed

lemma scanPatterns_concat:
  "scanPatterns e t ps st = scanMatches e (concat (map (\<lambda>p. matchAll p t) ps)) st"
  by (induction ps arbitrary: st) (simp_all add: scanMatches_append split: sum.splits)

lemma scanMatches_snoc:
  "scanMatches e (ms @ [m]) st =
     (case scanMatches e ms st of
        Inl err \<Rightarrow> Inl err
      | Inr (b, h) \<Rightarrow>
          (case keep e m of
             None \<Rightarrow> Inr (b, h)
           | Some i \<Rightarrow> if Confidence i > h then Inr (Some i, Confidence i) else Inr (b, h)))"
proof -
  obtain r where r: "parseAndValidateDate e m = Inr r"
    using parseAndValidateDate_total by blast
  show ?thesis
    unfolding scanMatches_append
    by (cases r) (auto simp: keep_def r split: sum.splits prod.splits)
qed

lemma cdc_bounds:
  "0 < calculateDateConfidence e s d \<and> calculateDateConfidence e s d \<le> 1"
proof -
  define yd where "yd = (case (getFullYear e (newDateNow e), getFullYear e d) of
                          (Some a, Some b) \<Rightarrow> Some \<bar>a - b\<bar> | _ \<Rightarrow> None)"
  have ba: "(case yd of Some v \<Rightarrow> v > 100 | None \<Rightarrow> False) \<longrightarrow>
            (case yd of Some v \<Rightarrow> v > 50 | None \<Rightarrow> False)"
    by (cases yd) auto
  from score_cases[OF ba, of "includesStr s ''/'' \<or> includesStr s ''-''" "rsearch [dig 4 4] s"
      "rsearch [Words True monthAbbrevs] s"]
  show ?thesis
    unfolding calculateDateConfidence_def Let_def yd_def by blast
qed

lemma parseFallback_conf:
  "parseFallback e s = Inr (Some i) \<Longrightarrow>
     Confidence i = double 0.6 \<and> Format i = Some ''Auto-detected''"
  by (auto simp: parseFallback_def Let_def split: if_splits sum.splits)

lemma parseFormats_conf:
  "parseFormats e s fm = Inr (Some i) \<Longrightarrow> 0 < Confidence i \<and> Confidence i \<le> 1"
proof (induction fm)
  case Nil
  then show ?case using parseFallback_conf[of e s i] by (simp add: double_06)
next
  case (Cons a fm)
  obtain f p where a: "a = (f, p)" by (cases a)
  show ?case
    using Cons cdc_bounds unfolding a
    by (auto split: if_splits option.splits sum.splits)
qed

lemma keep_conf:
  assumes "keep e m = Some i"
  shows "0 < Confidence i \<and> Confidence i \<le> 1"
proof -
  from assms obtain d where d: "parseAndValidateDate e m = Inr (Some d)"
    and i: "i = d\<lparr>ExtractedFromText := Some m\<rparr>"
    by (auto simp: keep_def split: sum.splits option.splits)
  from d have "parseFormats e m DATE_FORMAT_MAP = Inr (Some d)"
    by (auto simp: parseAndValidateDate_def split: if_splits sum.splits)
  from parseFormats_conf[OF this] show ?thesis by (simp add: i)
qed

lemma firstBest_unique: "firstBest cs r \<Longrightarrow> firstBest cs r' \<Longrightarrow> r = r'"
proof -
  assume "firstBest cs r" and "firstBest cs r'"
  then obtain i i' where i: "i < length cs" "cs ! i = r"
      "\<forall>j<length cs. Confidence (cs ! j) \<le> Confidence r" "\<forall>j<i. Confidence (cs ! j) < Confidence r"
    and i': "i' < length cs" "cs ! i' = r'"
      "\<forall>j<length cs. Confidence (cs ! j) \<le> Confidence r'" "\<forall>j<i'. Confidence (cs ! j) < Confidence r'"
    unfolding firstBest_def by blast
  have "\<not> i < i'"
  proof
    assume "i < i'"
    with i'(4) i(2) have "Confidence r < Confidence r'" by blast
    moreover from i(3) i'(1,2) have "Confidence r' \<le> Confidence r" by blast
    ultimately show False by simp
  qed
  moreover have "\<not> i' < i"
  proof
    assume "i' < i"
    with i(4) i'(2) have "Confidence r' < Confidence r" by blast
    moreover from i'(3) i(1,2) have "Confidence r \<le> Confidence r'" by blast
    ultimately show False by simp
  qed
  ultimately have "i = i'" by simp
  with i(2) i'(2) show "r = r'" by simp
qed

lemma firstBest_nonempty: "firstBest cs r \<Longrightarrow> cs \<noteq> []"
  by (auto simp: firstBest_def)

lemma firstBest_single: "firstBest [c] c"
  by (simp add: firstBest_def)

lemma firstBest_snoc_new:
  assumes "firstBest cs r" and "Confidence r < Confidence c"
  shows "firstBest (cs @ [c]) c"
proof -
  from assms(1) have le: "\<forall>j<length cs. Confidence (cs ! j) \<le> Confidence r"
    by (auto simp: firstBest_def)
  have "(cs @ [c]) ! length cs = c" by simp
  moreover have "\<forall>j<length (cs @ [c]). Confidence ((cs @ [c]) ! j) \<le> Confidence c"
    using le assms(2) by (fastforce simp: nth_append less_Suc_eq)
  moreover have "\<forall>j<length cs. Confidence ((cs @ [c]) ! j) < Confidence c"
    using le assms(2) by (fastforce simp: nth_append)
  ultimately show ?thesis
    unfolding firstBest_def by (intro exI[of _ "length cs"]) simp
qed

lemma firstBest_snoc_old:
  assumes "firstBest cs r" and "Confidence c \<le> Confidence r"
  shows "firstBest (cs @ [c]) r"
proof -
  from assms(1) obtain i where i: "i < length cs" "cs ! i = r"
      "\<forall>j<length cs. Confidence (cs ! j) \<le> Confidence r" "\<forall>j<i. Confidence (cs ! j) < Confidence r"
    unfolding firstBest_def by blast
  have "(cs @ [c]) ! i = r" using i(1,2) by (simp add: nth_append)
  moreover have "\<forall>j<length (cs @ [c]). Confidence ((cs @ [c]) ! j) \<le> Confidence r"
    using i(3) assms(2) by (auto simp: nth_append less_Suc_eq)
  moreover have "\<forall>j<i. Confidence ((cs @ [c]) ! j) < Confidence r"
    using i(1,4) by (auto simp: nth_append)
  ultimately show ?thesis
    unfolding firstBest_def using i(1) by (intro exI[of _ i]) simp
qed

lemma scan_best:
  "scanMatches e ms (None, 0) = Inr (b, h) \<Longrightarrow>
     (List.map_filter (keep e) ms = [] \<and> b = None \<and> h = 0) \<or>
     (\<exists>r. b = Some r \<and> h = Confidence r \<and> firstBest (List.map_filter (keep e) ms) r)"
proof (induction ms arbitrary: b h rule: rev_induct)
  case Nil
  then show ?case by (simp add: List.map_filter_simps)
next
  case (snoc m ms)
  obtain b0 h0 where prev: "scanMatches e ms (None, 0) = Inr (b0, h0)"
    using scanMatches_total[of e ms "(None, 0)"] by (cases "scanMatches e ms (None, 0)") auto
  note IH = snoc.IH[OF prev]
  have step: "(case keep e m of None \<Rightarrow> Inr (b0, h0)
       | Some i \<Rightarrow> if Confidence i > h0 then Inr (Some i, Confidence i) else Inr (b0, h0))
      = (Inr (b, h) :: error + (DateInformation option \<times> real))"
    using snoc.prems by (simp add: scanMatches_snoc prev)
  show ?case
  proof (cases "keep e m")
    case None
    then have "List.map_filter (keep e) (ms @ [m]) = List.map_filter (keep e) ms"
      by (simp add: List.map_filter_def)
    moreover from step None have "b = b0" "h = h0" by simp_all
    ultimately show ?thesis using IH by simp
  next
    case (Some c)
    then have cs: "List.map_filter (keep e) (ms @ [m]) = List.map_filter (keep e) ms @ [c]"
      by (simp add: List.map_filter_def)
    have pos: "0 < Confidence c" using keep_conf[OF Some] by simp
    from IH show ?thesis
    proof
      assume e0: "List.map_filter (keep e) ms = [] \<and> b0 = None \<and> h0 = 0"
      with step Some pos have "b = Some c" "h = Confidence c" by simp_all
      then show ?thesis using cs e0 firstBest_single by simp
    next
      assume "\<exists>r. b0 = Some r \<and> h0 = Confidence r \<and> firstBest (List.map_filter (keep e) ms) r"
      then obtain r where r: "b0 = Some r" "h0 = Confidence r"
        "firstBest (List.map_filter (keep e) ms) r" by blast
      show ?thesis
      proof (cases "Confidence c > h0")
        case True
        with step Some have "b = Some c" "h = Confidence c" by simp_all
        then show ?thesis using cs firstBest_snoc_new[OF r(3)] True r(2) by simp
      next
        case False
        with step Some have "b = b0" "h = h0" by simp_all
        then show ?thesis using cs firstBest_snoc_old[OF r(3)] False r(1,2) by simp
      qed
    qed
  qed
qed

lemma candidates_Nil: "candidates [] = []"
  by code_simp

lemma extract_scan:
  "extractDateFromText e text =
     (case scanMatches e (candidates text) (None, 0) of
        Inl err \<Rightarrow> Inl err | Inr (b, h) \<Rightarrow> Inr b)"
proof (cases "text = []")
  case True
  then show ?thesis by (simp add: extractDateFromText_def candidates_Nil)
next
  case False
  then show ?thesis
    by (simp add: extractDateFromText_def candidates_def scanPatterns_concat)
qed

lemma extract_cases:
  "(extractDateFromText e text = Inr None \<and> parsedCandidates e text = []) \<or>
   (\<exists>r. extractDateFromText e text = Inr (Some r) \<and> firstBest (parsedCandidates e text) r)"
proof -
  obtain b h where s: "scanMatches e (candidates text) (None, 0) = Inr (b, h)"
    using scanMatches_total[of e "candidates text" "(None, 0)"]
    by (cases "scanMatches e (candidates text) (None, 0)") auto
  then have x: "extractDateFromText e text = Inr b" by (simp add: extract_scan)
  from scan_best[OF s] show ?thesis
  proof
    assume "List.map_filter (keep e) (candidates text) = [] \<and> b = None \<and> h = 0"
    then show ?thesis by (simp add: x parsedCandidates_def)
  next
    assume "\<exists>r. b = Some r \<and> h = Confidence r \<and>
              firstBest (List.map_filter (keep e) (candidates text)) r"
    then obtain r where "b = Some r" "firstBest (List.map_filter (keep e) (candidates text)) r"
      by blast
    then have "extractDateFromText e text = Inr (Some r) \<and> firstBest (parsedCandidates e text) r"
      by (simp add: x parsedCandidates_def)
    then show ?thesis by blast
  qed
qed


section \<open>The properties\<close>

text \<open>
  C1. \<^verbatim>\<open>extractDateFromText\<close> collects all matches of every pattern of the table, in the
  order of the table and from left to right (\<open>candidates\<close>), parses each of them
  (\<open>parsedCandidates\<close>) and returns the one with the highest confidence; among candidates
  with the same highest confidence the one found first is kept. It returns \<^verbatim>\<open>null\<close>
  exactly when no candidate parses.
\<close>

theorem extract_keeps_first_best:
  "(extractDateFromText e text = Inr None \<longleftrightarrow> parsedCandidates e text = []) \<and>
   (extractDateFromText e text = Inr (Some r) \<longleftrightarrow> firstBest (parsedCandidates e text) r)"
proof (rule disjE[OF extract_cases[of e "text"]])
  assume a: "extractDateFromText e text = Inr None \<and> parsedCandidates e text = []"
  then have "\<not> firstBest (parsedCandidates e text) r"
    using firstBest_nonempty by blast
  with a show ?thesis by simp
next
  assume "\<exists>r. extractDateFromText e text = Inr (Some r) \<and> firstBest (parsedCandidates e text) r"
  then obtain r0 where r0: "extractDateFromText e text = Inr (Some r0)"
    "firstBest (parsedCandidates e text) r0" by blast
  have ne: "parsedCandidates e text \<noteq> []" using firstBest_nonempty[OF r0(2)] .
  have "firstBest (parsedCandidates e text) r \<longleftrightarrow> r = r0"
    using firstBest_unique[OF _ r0(2)] r0(2) by blast
  with r0(1) ne show ?thesis by auto
qed

theorem extract_keeps_first_best_witness:
  "extractDateFromText env_utc ''1.2.2024 or 03/04/2024 or 05-06-2024'' =
     Inr (Some \<lparr>Date = Some ''2024-04-03'', Format = Some ''DD/MM/YYYY'', Confidence = 1,
                ExtractedFromText = Some ''03/04/2024''\<rparr>) \<and>
   firstBest (parsedCandidates env_utc ''1.2.2024 or 03/04/2024 or 05-06-2024'')
     \<lparr>Date = Some ''2024-04-03'', Format = Some ''DD/MM/YYYY'', Confidence = 1,
      ExtractedFromText = Some ''03/04/2024''\<rparr>"
proof -
  have ev: "extractDateFromText env_utc ''1.2.2024 or 03/04/2024 or 05-06-2024'' =
     Inr (Some \<lparr>Date = Some ''2024-04-03'', Format = Some ''DD/MM/YYYY'', Confidence = 1,
                ExtractedFromText = Some ''03/04/2024''\<rparr>)"
    by code_simp
  with extract_keeps_first_best[of env_utc "''1.2.2024 or 03/04/2024 or 05-06-2024''"
      "\<lparr>Date = Some ''2024-04-03'', Format = Some ''DD/MM/YYYY'', Confidence = 1,
        ExtractedFromText = Some ''03/04/2024''\<rparr>"]
  show ?thesis by blast
qed

lemma parseFallback_fields:
  "parseFallback e s = Inr (Some i) \<Longrightarrow>
     Date i \<noteq> None \<and> Format i \<noteq> None \<and> ExtractedFromText i \<noteq> None"
  by (auto simp: parseFallback_def Let_def split: if_splits sum.splits)

lemma parseFormats_fields:
  "parseFormats e s fm = Inr (Some i) \<Longrightarrow>
     Date i \<noteq> None \<and> Format i \<noteq> None \<and> ExtractedFromText i \<noteq> None"
proof (induction fm)
  case Nil
  then show ?case using parseFallback_fields[of e s i] by simp
next
  case (Cons a fm)
  obtain f p where a: "a = (f, p)" by (cases a)
  show ?case
    using Cons unfolding a
    by (auto split: if_splits option.splits sum.splits)
qed

lemma keep_parse:
  "keep e m = Some r \<Longrightarrow>
     \<exists>d. parseAndValidateDate e m = Inr (Some d) \<and> parseFormats e m DATE_FORMAT_MAP = Inr (Some d) \<and>
         r = d\<lparr>ExtractedFromText := Some m\<rparr>"
  by (auto simp: keep_def parseAndValidateDate_def split: sum.splits option.splits if_splits)

lemma keep_fields:
  assumes "keep e m = Some r"
  shows "Date r \<noteq> None \<and> Format r \<noteq> None \<and> ExtractedFromText r = Some m"
proof -
  from keep_parse[OF assms] obtain d where d: "parseFormats e m DATE_FORMAT_MAP = Inr (Some d)"
    "r = d\<lparr>ExtractedFromText := Some m\<rparr>" by blast
  from parseFormats_fields[OF d(1)] d(2) show ?thesis by simp
qed

lemma firstBest_mem: "firstBest cs r \<Longrightarrow> r \<in> set cs"
  by (auto simp: firstBest_def)

lemma firstBest_max: "firstBest cs r \<Longrightarrow> c \<in> set cs \<Longrightarrow> Confidence c \<le> Confidence r"
  by (auto simp: firstBest_def in_set_conv_nth)

lemma parsedCandidates_mem:
  "r \<in> set (parsedCandidates e text) \<longleftrightarrow> (\<exists>m \<in> set (candidates text). keep e m = Some r)"
  by (force simp: parsedCandidates_def List.map_filter_def image_iff)

lemma extract_Some_keep:
  assumes "extractDateFromText e text = Inr (Some r)"
  shows "firstBest (parsedCandidates e text) r \<and> (\<exists>m \<in> set (candidates text). keep e m = Some r)"
proof -
  from extract_cases[of e "text"] assms obtain r0
    where "extractDateFromText e text = Inr (Some r0)" "firstBest (parsedCandidates e text) r0"
    by auto
  with assms have fb: "firstBest (parsedCandidates e text) r" by simp
  from firstBest_mem[OF fb] show ?thesis using fb by (simp add: parsedCandidates_mem)
qed

text \<open>
  C8. In every record returned by \<^verbatim>\<open>extractDateFromText\<close> the field \<^verbatim>\<open>Date\<close> is present if and
  only if \<^verbatim>\<open>Format\<close> and \<^verbatim>\<open>ExtractedFromText\<close> are present; in fact all three always are.
\<close>

theorem result_fields_present_together:
  "extractDateFromText e text = Inr (Some r) \<Longrightarrow>
     (Date r \<noteq> None \<longleftrightarrow> Format r \<noteq> None \<and> ExtractedFromText r \<noteq> None) \<and> Date r \<noteq> None"
proof -
  assume "extractDateFromText e text = Inr (Some r)"
  from extract_Some_keep[OF this] obtain m where "keep e m = Some r" by blast
  from keep_fields[OF this] show ?thesis by simp
qed

theorem result_fields_present_together_witness:
  "extractDateFromText env_utc ''Signed on 15/03/2024'' =
     Inr (Some \<lparr>Date = Some ''2024-03-15'', Format = Some ''DD/MM/YYYY'', Confidence = 1,
                ExtractedFromText = Some ''15/03/2024''\<rparr>) \<and>
   (Date \<lparr>Date = Some ''2024-03-15'', Format = Some ''DD/MM/YYYY'', Confidence = 1,
          ExtractedFromText = Some ''15/03/2024''\<rparr> \<noteq> None)"
proof -
  have ev: "extractDateFromText env_utc ''Signed on 15/03/2024'' =
     Inr (Some \<lparr>Date = Some ''2024-03-15'', Format = Some ''DD/MM/YYYY'', Confidence = 1,
                ExtractedFromText = Some ''15/03/2024''\<rparr>)"
    by code_simp
  from result_fields_present_together[OF ev] ev show ?thesis by blast
qed

lemma extract_total: "\<exists>r. extractDateFromText e text = Inr r"
  using extract_cases[of e "text"] by blast

lemma catch_rejects:
  "parseFormats e m DATE_FORMAT_MAP = Inl err \<Longrightarrow> parseAndValidateDate e m = Inr None"
  by (simp add: parseAndValidateDate_def)

text \<open>
  C7. \<^verbatim>\<open>extractDateFromText\<close> never raises: it returns a value for every environment and
  text; the empty text and a text none of whose candidates parses give \<^verbatim>\<open>null\<close>; and an
  exception raised while the record of one candidate is built (the \<^verbatim>\<open>RangeError\<close> of
  \<^verbatim>\<open>toISOString\<close> on an invalid date) is caught in \<^verbatim>\<open>parseAndValidateDate\<close>, which then
  returns \<^verbatim>\<open>null\<close>, so that the scan skips this candidate and goes on.
\<close>

theorem extract_never_raises:
  "(\<exists>r. extractDateFromText e text = Inr r) \<and>
   extractDateFromText e [] = Inr None \<and>
   (parsedCandidates e text = [] \<longrightarrow> extractDateFromText e text = Inr None) \<and>
   (parseFormats e m DATE_FORMAT_MAP = Inl err \<longrightarrow>
      parseAndValidateDate e m = Inr None \<and> scanMatches e (m # ms) st = scanMatches e ms st)"
proof -
  have 1: "\<exists>r. extractDateFromText e text = Inr r" by (rule extract_total)
  have 2: "extractDateFromText e [] = Inr None" by (simp add: extractDateFromText_def)
  have 3: "parsedCandidates e text = [] \<longrightarrow> extractDateFromText e text = Inr None"
    using extract_cases[of e "text"] firstBest_nonempty by blast
  have 4: "parseFormats e m DATE_FORMAT_MAP = Inl err \<longrightarrow>
      parseAndValidateDate e m = Inr None \<and> scanMatches e (m # ms) st = scanMatches e ms st"
  proof
    assume "parseFormats e m DATE_FORMAT_MAP = Inl err"
    then have p: "parseAndValidateDate e m = Inr None" by (rule catch_rejects)
    obtain b h where st: "st = (b, h)" by (cases st)
    show "parseAndValidateDate e m = Inr None \<and> scanMatches e (m # ms) st = scanMatches e ms st"
      using p unfolding st by simp
  qed
  from 1 2 3 4 show ?thesis by blast
qed

theorem extract_never_raises_witness:
  "parsedCandidates env_utc ''Document Date: 16/03/24'' = [] \<and>
   extractDateFromText env_utc ''Document Date: 16/03/24'' = Inr None \<and>
   parseFormats env_utc ''99999999999/1/2024'' DATE_FORMAT_MAP = Inl RangeError \<and>
   parseAndValidateDate env_utc ''99999999999/1/2024'' = Inr None \<and>
   scanMatches env_utc [''99999999999/1/2024'', ''1/1/2024''] (None, 0) =
     scanMatches env_utc [''1/1/2024''] (None, 0)"
proof -
  have a: "parsedCandidates env_utc ''Document Date: 16/03/24'' = []" by code_simp
  have b: "parseFormats env_utc ''99999999999/1/2024'' DATE_FORMAT_MAP = Inl RangeError"
    by code_simp
  from a b extract_never_raises[of env_utc "''Document Date: 16/03/24''" "''99999999999/1/2024''"
      RangeError "[''1/1/2024'']" "(None, 0)"]
  show ?thesis by blast
qed

lemma parseFormats_auto:
  "parseFormats e s fm = Inr (Some r) \<Longrightarrow> \<forall>(f, p) \<in> set fm. f \<noteq> ''Auto-detected'' \<Longrightarrow>
     Format r = Some ''Auto-detected'' \<Longrightarrow> Confidence r = double 0.6"
proof (induction fm)
  case Nil
  then show ?case using parseFallback_conf[of e s r] by simp
next
  case (Cons a fm)
  obtain f p where a: "a = (f, p)" by (cases a)
  show ?case
    using Cons unfolding a
    by (auto split: if_splits option.splits sum.splits)
qed

lemma format_tags: "\<forall>(f, p) \<in> set DATE_FORMAT_MAP. f \<noteq> ''Auto-detected''"
  by (simp add: DATE_FORMAT_MAP_def)

lemma auto_detected_conf:
  assumes "parseAndValidateDate e s = Inr (Some r)" and "Format r = Some ''Auto-detected''"
  shows "Confidence r = double 0.6"
proof -
  from assms(1) have "parseFormats e s DATE_FORMAT_MAP = Inr (Some r)"
    by (auto simp: parseAndValidateDate_def split: if_splits sum.splits)
  from parseFormats_auto[OF this format_tags assms(2)] show ?thesis .
qed

text \<open>
  C9. A candidate parsed by the generic fallback (format tag \<^verbatim>\<open>Auto-detected\<close>) has the
  fixed confidence 0.6; hence when some candidate is parsed by a strict format with a
  confidence above 0.6, the extraction returns a strictly parsed candidate of at least that
  confidence, never a fallback one.
\<close>

theorem fallback_fixed_confidence:
  "(parseAndValidateDate e s = Inr (Some r) \<and> Format r = Some ''Auto-detected''
      \<longrightarrow> Confidence r = double 0.6) \<and>
   (m \<in> set (candidates text) \<and> parseAndValidateDate e m = Inr (Some c) \<and>
    Format c \<noteq> Some ''Auto-detected'' \<and> Confidence c > double 0.6
      \<longrightarrow> (\<exists>b. extractDateFromText e text = Inr (Some b) \<and>
               Format b \<noteq> Some ''Auto-detected'' \<and> Confidence c \<le> Confidence b))"
proof (intro conjI impI)
  assume "parseAndValidateDate e s = Inr (Some r) \<and> Format r = Some ''Auto-detected''"
  then show "Confidence r = double 0.6" using auto_detected_conf[of e s r] by simp
next
  assume h: "m \<in> set (candidates text) \<and> parseAndValidateDate e m = Inr (Some c) \<and>
    Format c \<noteq> Some ''Auto-detected'' \<and> Confidence c > double 0.6"
  then have k: "keep e m = Some (c\<lparr>ExtractedFromText := Some m\<rparr>)"
    by (simp add: keep_def)
  with h have mem: "c\<lparr>ExtractedFromText := Some m\<rparr> \<in> set (parsedCandidates e text)"
    unfolding parsedCandidates_mem by blast
  then have "parsedCandidates e text \<noteq> []" by auto
  with extract_cases[of e "text"] obtain b where b: "extractDateFromText e text = Inr (Some b)"
    "firstBest (parsedCandidates e text) b" by blast
  from firstBest_max[OF b(2) mem] have le: "Confidence c \<le> Confidence b" by simp
  from extract_Some_keep[OF b(1)] obtain m' where "keep e m' = Some b" by blast
  from keep_parse[OF this] obtain d where d: "parseAndValidateDate e m' = Inr (Some d)"
    "b = d\<lparr>ExtractedFromText := Some m'\<rparr>" by blast
  have "Format b \<noteq> Some ''Auto-detected''"
  proof
    assume "Format b = Some ''Auto-detected''"
    with d(2) have "Format d = Some ''Auto-detected''" by simp
    from auto_detected_conf[OF d(1) this] d(2) have "Confidence b = double 0.6" by simp
    with le h show False by simp
  qed
  with b(1) le show "\<exists>b. extractDateFromText e text = Inr (Some b) \<and>
               Format b \<noteq> Some ''Auto-detected'' \<and> Confidence c \<le> Confidence b" by blast
qed

theorem fallback_fixed_confidence_witness:
  "parseAndValidateDate env_legacy ''March 18, 2024'' =
     Inr (Some \<lparr>Date = Some ''2024-03-18'', Format = Some ''Auto-detected'',
                Confidence = double 0.6,
                ExtractedFromText = Some ''March 18, 2024''\<rparr>) \<and>
   ''22.03.2024'' \<in> set (candidates ''March 18, 2024 or 22.03.2024'') \<and>
   parseAndValidateDate env_legacy ''22.03.2024'' =
     Inr (Some \<lparr>Date = Some ''2024-03-22'', Format = Some ''DD.MM.YYYY'',
                Confidence = double 0.9,
                ExtractedFromText = Some ''22.03.2024''\<rparr>) \<and>
   (\<exists>b. extractDateFromText env_legacy ''March 18, 2024 or 22.03.2024'' = Inr (Some b) \<and>
        Format b \<noteq> Some ''Auto-detected'' \<and> double 0.9 \<le> Confidence b)"
proof -
  have a: "parseAndValidateDate env_legacy ''March 18, 2024'' =
     Inr (Some \<lparr>Date = Some ''2024-03-18'', Format = Some ''Auto-detected'',
                Confidence = double 0.6,
                ExtractedFromText = Some ''March 18, 2024''\<rparr>)"
    by code_simp
  have b: "''22.03.2024'' \<in> set (candidates ''March 18, 2024 or 22.03.2024'')"
    by code_simp
  have c: "parseAndValidateDate env_legacy ''22.03.2024'' =
     Inr (Some \<lparr>Date = Some ''2024-03-22'', Format = Some ''DD.MM.YYYY'',
                Confidence = double 0.9,
                ExtractedFromText = Some ''22.03.2024''\<rparr>)"
    by code_simp
  from a b c fallback_fixed_confidence[of env_legacy "''March 18, 2024''"
      "\<lparr>Date = Some ''2024-03-18'', Format = Some ''Auto-detected'',
                Confidence = double 0.6,
        ExtractedFromText = Some ''March 18, 2024''\<rparr>"
      "''22.03.2024''" "''March 18, 2024 or 22.03.2024''"
      "\<lparr>Date = Some ''2024-03-22'', Format = Some ''DD.MM.YYYY'',
                Confidence = double 0.9,
        ExtractedFromText = Some ''22.03.2024''\<rparr>"]
  show ?thesis by (simp add: double_06 double_09)
qed

lemma getFullYear_now: "getFullYear e (newDateNow e) = Some (currentYear e)"
  by (simp add: getFullYear_def newDateNow_def currentYear_def)

lemma newDate_env: "LocalTZA e1 = LocalTZA e2 \<Longrightarrow> newDate e1 y m d = newDate e2 y m d"
  by (simp add: newDate_def UTC_def)

lemma parseDate_env:
  assumes "LocalTZA e1 = LocalTZA e2"
  shows "parseDate e1 s f = parseDate e2 s f"
  unfolding parseDate_def by (simp only: newDate_env[OF assms])

lemma getFullYear_env: "LocalTZA e1 = LocalTZA e2 \<Longrightarrow> getFullYear e1 d = getFullYear e2 d"
  by (simp add: getFullYear_def LocalTime_def)

lemma confidence_env:
  assumes "LocalTZA e1 = LocalTZA e2" and "currentYear e1 = currentYear e2"
  shows "calculateDateConfidence e1 s d = calculateDateConfidence e2 s d"
proof -
  have a: "getFullYear e1 (newDateNow e1) = getFullYear e2 (newDateNow e2)"
    by (simp add: getFullYear_now assms(2))
  have b: "getFullYear e1 d = getFullYear e2 d"
    by (rule getFullYear_env[OF assms(1)])
  show ?thesis
    unfolding calculateDateConfidence_def Let_def a b ..
qed

lemma parseFallback_env:
  "DateParse e1 s = DateParse e2 s \<Longrightarrow> parseFallback e1 s = parseFallback e2 s"
  by (simp add: parseFallback_def newDateFromString_def)

lemma parseFormats_env:
  assumes "LocalTZA e1 = LocalTZA e2" and "currentYear e1 = currentYear e2"
    and "DateParse e1 s = DateParse e2 s"
  shows "parseFormats e1 s fm = parseFormats e2 s fm"
proof (induction fm)
  case Nil
  show ?case using parseFallback_env[OF assms(3)] by simp
next
  case (Cons a fm)
  obtain f p where a: "a = (f, p)" by (cases a)
  have "parseFormats e1 s ((f, p) # fm) = parseFormats e2 s ((f, p) # fm)"
    by (simp only: parseFormats.simps Cons.IH parseDate_env[OF assms(1)]
        confidence_env[OF assms(1,2)])
  then show ?case unfolding a .
qed

lemma parseAndValidateDate_env:
  assumes "LocalTZA e1 = LocalTZA e2" and "currentYear e1 = currentYear e2"
    and "DateParse e1 s = DateParse e2 s"
  shows "parseAndValidateDate e1 s = parseAndValidateDate e2 s"
  unfolding parseAndValidateDate_def by (simp only: parseFormats_env[OF assms])

lemma scanMatches_env:
  assumes "LocalTZA e1 = LocalTZA e2" and "currentYear e1 = currentYear e2"
  shows "\<forall>m \<in> set ms. DateParse e1 m = DateParse e2 m \<Longrightarrow>
           scanMatches e1 ms st = scanMatches e2 ms st"
proof (induction ms arbitrary: st)
  case Nil
  show ?case by simp
next
  case (Cons m ms)
  obtain b h where st: "st = (b, h)" by (cases st)
  from Cons.prems have "DateParse e1 m = DateParse e2 m" by simp
  note p = parseAndValidateDate_env[OF assms this]
  from Cons.prems have "\<forall>m \<in> set ms. DateParse e1 m = DateParse e2 m" by simp
  note IH = Cons.IH[OF this]
  have "scanMatches e1 (m # ms) (b, h) = scanMatches e2 (m # ms) (b, h)"
    by (simp only: scanMatches.simps p IH)
  then show ?case unfolding st .
qed

text \<open>
  C6, as amended. For a fixed text and the fixed pattern table, two invocations of
  \<^verbatim>\<open>extractDateFromText\<close> in the same runtime environment (the same time zone setting and
  the same \<^verbatim>\<open>Date.parse\<close> on the candidates of the text) and in the same calendar year
  (\<^verbatim>\<open>new Date().getFullYear()\<close>) return the same result, whatever else the clock reads; there
  is no randomness.
\<close>

theorem extract_depends_on_environment_only:
  assumes "LocalTZA e1 = LocalTZA e2" and "currentYear e1 = currentYear e2"
    and "\<forall>m \<in> set (candidates text). DateParse e1 m = DateParse e2 m"
  shows "extractDateFromText e1 text = extractDateFromText e2 text"
  by (simp only: extract_scan scanMatches_env[OF assms])

theorem extract_depends_on_environment_only_witness:
  "clock env_utc \<noteq> clock env_legacy_june \<and>
   LocalTZA env_utc = LocalTZA env_legacy_june \<and>
   currentYear env_utc = currentYear env_legacy_june \<and>
   list_all (\<lambda>m. DateParse env_utc m = DateParse env_legacy_june m)
     (candidates ''Signature 22-03-2024'') \<and>
   extractDateFromText env_utc ''Signature 22-03-2024'' =
     extractDateFromText env_legacy_june ''Signature 22-03-2024''"
proof -
  have k: "clock env_utc \<noteq> clock env_legacy_june"
    by (simp add: env_utc_def env_legacy_june_def)
  have a: "LocalTZA env_utc = LocalTZA env_legacy_june"
    by (simp add: env_utc_def env_legacy_june_def)
  have b: "currentYear env_utc = currentYear env_legacy_june"
    by code_simp
  have c: "\<forall>m \<in> set (candidates ''Signature 22-03-2024'').
             DateParse env_utc m = DateParse env_legacy_june m"
    by code_simp
  from k a b c extract_depends_on_environment_only[OF a b c] show ?thesis
    by (simp add: list_all_iff)
qed

text \<open>
  C6, as stated, fails: the result depends on the clock. The same text gives confidence 1
  while the clock reads 2025 and 0.7 once it reads 2026, when the year 1975 is more than 50
  years back.
\<close>

theorem extract_depends_on_clock_counterexample:
  "extractDateFromText env_utc ''01/01/1975'' \<noteq> extractDateFromText env_utc_2026 ''01/01/1975''"
proof -
  have a: "extractDateFromText env_utc ''01/01/1975'' =
     Inr (Some \<lparr>Date = Some ''1975-01-01'', Format = Some ''DD/MM/YYYY'', Confidence = 1,
                ExtractedFromText = Some ''01/01/1975''\<rparr>)"
    by code_simp
  have b: "extractDateFromText env_utc_2026 ''01/01/1975'' =
     Inr (Some \<lparr>Date = Some ''1975-01-01'', Format = Some ''DD/MM/YYYY'', Confidence = double 0.7,
                ExtractedFromText = Some ''01/01/1975''\<rparr>)"
    by code_simp
  show ?thesis unfolding a b by (simp add: double_07)
qed

lemma rsearch_iff: "rsearch r s \<longleftrightarrow> (\<exists>ps ss. s = ps @ ss \<and> rx_run r ss \<noteq> [])"
proof (induction s)
  case Nil
  show ?case by simp
next
  case (Cons c cs)
  show ?case
  proof
    assume "rsearch r (c # cs)"
    then consider "rx_run r (c # cs) \<noteq> []" | "rsearch r cs" by auto
    then show "\<exists>ps ss. c # cs = ps @ ss \<and> rx_run r ss \<noteq> []"
    proof cases
      case 1
      then have "c # cs = [] @ (c # cs) \<and> rx_run r (c # cs) \<noteq> []" by simp
      then show ?thesis by blast
    next
      case 2
      with Cons.IH obtain ps ss where "cs = ps @ ss" "rx_run r ss \<noteq> []" by blast
      then have "c # cs = (c # ps) @ ss \<and> rx_run r ss \<noteq> []" by simp
      then show ?thesis by blast
    qed
  next
    assume "\<exists>ps ss. c # cs = ps @ ss \<and> rx_run r ss \<noteq> []"
    then obtain ps ss where p: "c # cs = ps @ ss" "rx_run r ss \<noteq> []" by blast
    show "rsearch r (c # cs)"
    proof (cases ps)
      case Nil
      with p have "rx_run r (c # cs) \<noteq> []" by simp
      then show ?thesis by simp
    next
      case (Cons a ps')
      with p have "cs = ps' @ ss" by simp
      with p(2) Cons.IH have "rsearch r cs" by blast
      then show ?thesis by simp
    qed
  qed
qed

lemma concat_rx_run_Nil: "concat (map (rx_run []) xs) = xs"
  by (induction xs) simp_all

lemma rx_run_single: "rx_run [r] s = rx_step r s"
  by (simp add: concat_rx_run_Nil)

lemma four_digits_here:
  "rx_run [dig 4 4] s \<noteq> [] \<longleftrightarrow> 4 \<le> length (takeWhile isDigit s)"
proof -
  have "in_class Digit = isDigit" by (rule ext) simp
  then show ?thesis
    by (simp add: rx_run_single dig_def Let_def min_def del: rx_run.simps)
qed

lemma takeWhile_prefix_iff:
  "n \<le> length (takeWhile P s) \<longleftrightarrow> (\<exists>ds rest. s = ds @ rest \<and> length ds = n \<and> list_all P ds)"
proof
  assume n: "n \<le> length (takeWhile P s)"
  have "takeWhile P s @ dropWhile P s = s" by simp
  then have s: "s = take n (takeWhile P s) @ (drop n (takeWhile P s) @ dropWhile P s)"
    by (metis append_assoc append_take_drop_id)
  have "list_all P (take n (takeWhile P s))"
    by (metis in_set_takeD list_all_iff set_takeWhileD)
  moreover have "length (take n (takeWhile P s)) = n" using n by simp
  ultimately show "\<exists>ds rest. s = ds @ rest \<and> length ds = n \<and> list_all P ds"
    using s by blast
next
  assume "\<exists>ds rest. s = ds @ rest \<and> length ds = n \<and> list_all P ds"
  then obtain ds rest where d: "s = ds @ rest" "length ds = n" "list_all P ds" by blast
  then have "takeWhile P s = ds @ takeWhile P rest"
    by (simp add: list_all_iff takeWhile_append2)
  with d(2) show "n \<le> length (takeWhile P s)" by simp
qed

lemma rsearch_four_digits: "rsearch [dig 4 4] s \<longleftrightarrow> fourDigitRun s"
proof -
  have "rsearch [dig 4 4] s \<longleftrightarrow>
        (\<exists>ps ss. s = ps @ ss \<and> (\<exists>ds rest. ss = ds @ rest \<and> length ds = 4 \<and> list_all isDigit ds))"
    unfolding rsearch_iff four_digits_here takeWhile_prefix_iff ..
  also have "\<dots> \<longleftrightarrow> (\<exists>ds. length ds = 4 \<and> list_all isDigit ds \<and> (\<exists>ps rest. s = ps @ ds @ rest))"
    by blast
  finally show ?thesis by (simp add: fourDigitRun_def sublist_def)
qed

lemma lit_ci_iff: "(\<exists>y. lit True w s = Some y) \<longleftrightarrow> prefix (map canon w) (map canon s)"
  by (induction True w s rule: lit.induct) simp_all

lemma words_here:
  "rx_run [Words True ws] s \<noteq> [] \<longleftrightarrow> (\<exists>w \<in> set ws. prefix (map canon w) (map canon s))"
proof -
  have "rx_run [Words True ws] s \<noteq> [] \<longleftrightarrow> (\<exists>w \<in> set ws. lit True w s \<noteq> None)"
    by (auto simp: rx_run_single List.map_filter_def filter_empty_conv simp del: rx_run.simps)
  then show ?thesis by (simp add: lit_ci_iff)
qed

lemma sublist_map_split:
  "sublist xs (map f s) \<longleftrightarrow> (\<exists>ps ss. s = ps @ ss \<and> prefix xs (map f ss))"
proof
  assume "sublist xs (map f s)"
  then obtain a b where ab: "map f s = a @ xs @ b" by (auto simp: sublist_def)
  have "s = take (length a) s @ drop (length a) s" by simp
  moreover have "map f (drop (length a) s) = xs @ b"
    using ab by (metis append_eq_conv_conj drop_map)
  ultimately have "s = take (length a) s @ drop (length a) s \<and>
      prefix xs (map f (drop (length a) s))" by (simp add: prefix_def)
  then show "\<exists>ps ss. s = ps @ ss \<and> prefix xs (map f ss)" by blast
next
  assume "\<exists>ps ss. s = ps @ ss \<and> prefix xs (map f ss)"
  then obtain ps ss b where "s = ps @ ss" "map f ss = xs @ b" by (auto simp: prefix_def)
  then have "map f s = map f ps @ xs @ b" by simp
  then show "sublist xs (map f s)" unfolding sublist_def by blast
qed

lemma rsearch_words:
  "rsearch [Words True ws] s \<longleftrightarrow> (\<exists>w \<in> set ws. sublist (map canon w) (map canon s))"
  unfolding rsearch_iff words_here sublist_map_split by blast

lemma full_has_abbrev: "\<forall>w \<in> set monthFull. \<exists>a \<in> set monthAbbrevs. prefix a w"
  by (simp add: monthFull_def monthAbbrevs_def)

lemma rsearch_month: "rsearch [Words True monthAbbrevs] s \<longleftrightarrow> monthNameIn s"
proof -
  have "(\<exists>w \<in> set (monthAbbrevs @ monthFull). sublist (map canon w) (map canon s)) \<longleftrightarrow>
        (\<exists>w \<in> set monthAbbrevs. sublist (map canon w) (map canon s))"
  proof
    assume "\<exists>w \<in> set (monthAbbrevs @ monthFull). sublist (map canon w) (map canon s)"
    then obtain w where w: "w \<in> set monthAbbrevs \<or> w \<in> set monthFull"
      "sublist (map canon w) (map canon s)" by auto
    from w(1) show "\<exists>w \<in> set monthAbbrevs. sublist (map canon w) (map canon s)"
    proof
      assume "w \<in> set monthAbbrevs"
      with w(2) show ?thesis by blast
    next
      assume "w \<in> set monthFull"
      with full_has_abbrev obtain a where a: "a \<in> set monthAbbrevs" "prefix a w" by blast
      from a(2) have "prefix (map canon a) (map canon w)" by (rule map_mono_prefix)
      then have "sublist (map canon a) (map canon w)" by (rule prefix_imp_sublist)
      from sublist_order.order_trans[OF this w(2)] a(1) show ?thesis by blast
    qed
  next
    assume "\<exists>w \<in> set monthAbbrevs. sublist (map canon w) (map canon s)"
    then show "\<exists>w \<in> set (monthAbbrevs @ monthFull). sublist (map canon w) (map canon s)" by auto
  qed
  then show ?thesis by (simp add: rsearch_words monthNameIn_def)
qed

lemma includes_char: "includesStr s [c] \<longleftrightarrow> c \<in> set s"
  by (auto simp: includesStr_def sublist_def in_set_conv_decomp)

lemma getFullYear_parsed: "getFullYear e (Some t) = Some (localYear e t)"
  by (simp add: getFullYear_def localYear_def)

lemma cdc_eq:
  "calculateDateConfidence e s (Some t) =
     (let c0 = double 0.8;
          c1 = (if \<bar>currentYear e - localYear e t\<bar> > 50 then double (c0 - double 0.3) else c0);
          c2 = (if \<bar>currentYear e - localYear e t\<bar> > 100 then double (c1 - double 0.4) else c1);
          c3 = (if includesStr s ''/'' \<or> includesStr s ''-'' then double (c2 + double 0.1) else c2);
          c4 = (if rsearch [dig 4 4] s then double (c3 + double 0.1) else c3);
          c5 = (if rsearch [Words True monthAbbrevs] s then double (c4 + double 0.1) else c4)
      in min (max c5 0) 1)"
  unfolding calculateDateConfidence_def Let_def getFullYear_now getFullYear_parsed
    prod.case option.case ..

text \<open>
  C2, as amended. The confidence of a matched text and its parsed date is computed in double
  arithmetic, in the order of the source: from the double 0.8 the double 0.3 is subtracted
  when the current year and the year of the parsed date differ by more than 50, then the
  double 0.4 when they differ by more than 100; then the double 0.1 is added when the text
  contains \<^verbatim>\<open>/\<close> or \<^verbatim>\<open>-\<close>, again when it contains a run of four digits, and again when it
  contains a month name or abbreviation (in any letter case); every difference and sum is
  rounded to a double, and the result is clamped to the interval from 0 to 1. This score is
  within \<open>2^-53\<close> of the exact value of the decimal formula. Hence the confidence of every
  result of \<^verbatim>\<open>extractDateFromText\<close> lies between 0 and 1.
\<close>

theorem confidence_in_doubles:
  "calculateDateConfidence e s (Some t) =
     (let c0 = double 0.8;
          c1 = (if \<bar>currentYear e - localYear e t\<bar> > 50 then double (c0 - double 0.3) else c0);
          c2 = (if \<bar>currentYear e - localYear e t\<bar> > 100 then double (c1 - double 0.4) else c1);
          c3 = (if CHR ''/'' \<in> set s \<or> CHR ''-'' \<in> set s then double (c2 + double 0.1) else c2);
          c4 = (if fourDigitRun s then double (c3 + double 0.1) else c3);
          c5 = (if monthNameIn s then double (c4 + double 0.1) else c4)
      in min (max c5 0) 1) \<and>
   \<bar>calculateDateConfidence e s (Some t) -
    clamp01 (0.8 - (if \<bar>currentYear e - localYear e t\<bar> > 50 then 0.3 else 0)
                 - (if \<bar>currentYear e - localYear e t\<bar> > 100 then 0.4 else 0)
                 + (if CHR ''/'' \<in> set s \<or> CHR ''-'' \<in> set s then 0.1 else 0)
                 + (if fourDigitRun s then 0.1 else 0)
                 + (if monthNameIn s then 0.1 else 0))\<bar> \<le> 1 / 2 ^ 53 \<and>
   0 \<le> calculateDateConfidence e s (Some t) \<and> calculateDateConfidence e s (Some t) \<le> 1 \<and>
   (extractDateFromText e text = Inr (Some r) \<longrightarrow> 0 \<le> Confidence r \<and> Confidence r \<le> 1)"
proof -
  have eq: "calculateDateConfidence e s (Some t) =
     (let c0 = double 0.8;
          c1 = (if \<bar>currentYear e - localYear e t\<bar> > 50 then double (c0 - double 0.3) else c0);
          c2 = (if \<bar>currentYear e - localYear e t\<bar> > 100 then double (c1 - double 0.4) else c1);
          c3 = (if CHR ''/'' \<in> set s \<or> CHR ''-'' \<in> set s then double (c2 + double 0.1) else c2);
          c4 = (if fourDigitRun s then double (c3 + double 0.1) else c3);
          c5 = (if monthNameIn s then double (c4 + double 0.1) else c4)
      in min (max c5 0) 1)"
    unfolding cdc_eq includes_char rsearch_four_digits rsearch_month ..
  have ba: "\<bar>currentYear e - localYear e t\<bar> > 100 \<longrightarrow> \<bar>currentYear e - localYear e t\<bar> > 50"
    by simp
  have err: "\<bar>calculateDateConfidence e s (Some t) -
    clamp01 (0.8 - (if \<bar>currentYear e - localYear e t\<bar> > 50 then 0.3 else 0)
                 - (if \<bar>currentYear e - localYear e t\<bar> > 100 then 0.4 else 0)
                 + (if CHR ''/'' \<in> set s \<or> CHR ''-'' \<in> set s then 0.1 else 0)
                 + (if fourDigitRun s then 0.1 else 0)
                 + (if monthNameIn s then 0.1 else 0))\<bar> \<le> 1 / 2 ^ 53"
    unfolding eq
    using score_cases[OF ba, of "CHR ''/'' \<in> set s \<or> CHR ''-'' \<in> set s" "fourDigitRun s"
        "monthNameIn s"]
    by blast
  have lo: "0 \<le> calculateDateConfidence e s (Some t)"
    using cdc_bounds[of e s "Some t"] by simp
  have hi: "calculateDateConfidence e s (Some t) \<le> 1"
    using cdc_bounds[of e s "Some t"] by simp
  have res: "extractDateFromText e text = Inr (Some r) \<longrightarrow> 0 \<le> Confidence r \<and> Confidence r \<le> 1"
  proof
    assume "extractDateFromText e text = Inr (Some r)"
    from extract_Some_keep[OF this] obtain m where "keep e m = Some r" by blast
    from keep_conf[OF this] show "0 \<le> Confidence r \<and> Confidence r \<le> 1" by simp
  qed
  from eq err lo hi res show ?thesis by blast
qed

theorem confidence_in_doubles_witness:
  "extractDateFromText env_utc_2026 ''01/01/1975'' =
     Inr (Some \<lparr>Date = Some ''1975-01-01'', Format = Some ''DD/MM/YYYY'',
                Confidence = double 0.7, ExtractedFromText = Some ''01/01/1975''\<rparr>) \<and>
   0 \<le> double 0.7 \<and> double 0.7 \<le> 1"
proof -
  have b: "extractDateFromText env_utc_2026 ''01/01/1975'' =
     Inr (Some \<lparr>Date = Some ''1975-01-01'', Format = Some ''DD/MM/YYYY'',
                Confidence = double 0.7, ExtractedFromText = Some ''01/01/1975''\<rparr>)"
    by code_simp
  from b confidence_in_doubles[of env_utc_2026 "''01/01/1975''" 157766400000 "''01/01/1975''"
      "\<lparr>Date = Some ''1975-01-01'', Format = Some ''DD/MM/YYYY'',
        Confidence = double 0.7, ExtractedFromText = Some ''01/01/1975''\<rparr>"]
  show ?thesis by simp
qed

text \<open>
  C2, as stated, fails: the score is not equal to the exact value of the decimal formula. For
  the candidate \<^verbatim>\<open>31.1.1924\<close>, found and parsed as the last day of January 1924 while the clock
  reads 2025, the formula gives 0.8 - 0.3 - 0.4 + 0.1 = 0.2, and the score is the double below
  it, 0.19999999999999998.
\<close>

theorem confidence_exact_formula_counterexample:
  "extractDateFromText env_utc ''31.1.1924'' =
     Inr (Some \<lparr>Date = Some ''1924-01-31'', Format = Some ''DD.MM.YYYY'',
                Confidence = calculateDateConfidence env_utc ''31.1.1924'' (Some (- 1449100800000)),
                ExtractedFromText = Some ''31.1.1924''\<rparr>) \<and>
   calculateDateConfidence env_utc ''31.1.1924'' (Some (- 1449100800000)) =
     7205759403792793 / 36028797018963968 \<and>
   clamp01 (0.8 - (if \<bar>currentYear env_utc - localYear env_utc (- 1449100800000)\<bar> > 50
                   then 0.3 else 0)
                - (if \<bar>currentYear env_utc - localYear env_utc (- 1449100800000)\<bar> > 100
                   then 0.4 else 0)
                + (if CHR ''/'' \<in> set ''31.1.1924'' \<or> CHR ''-'' \<in> set ''31.1.1924'' then 0.1 else 0)
                + (if fourDigitRun ''31.1.1924'' then 0.1 else 0)
                + (if monthNameIn ''31.1.1924'' then 0.1 else 0)) = 1 / 5 \<and>
   (7205759403792793 / 36028797018963968 :: real) \<noteq> 1 / 5"
proof -
  have c: "calculateDateConfidence env_utc ''31.1.1924'' (Some (- 1449100800000)) =
     7205759403792793 / 36028797018963968"
    by code_simp
  have x: "extractDateFromText env_utc ''31.1.1924'' =
     Inr (Some \<lparr>Date = Some ''1924-01-31'', Format = Some ''DD.MM.YYYY'',
                Confidence = 7205759403792793 / 36028797018963968,
                ExtractedFromText = Some ''31.1.1924''\<rparr>)"
    by code_simp
  have y: "\<bar>currentYear env_utc - localYear env_utc (- 1449100800000)\<bar> = 101"
    by code_simp
  have d: "fourDigitRun ''31.1.1924''"
    unfolding rsearch_four_digits[symmetric] by code_simp
  have m: "\<not> monthNameIn ''31.1.1924''"
    unfolding rsearch_month[symmetric] by code_simp
  have f: "clamp01 (0.8 - (if \<bar>currentYear env_utc - localYear env_utc (- 1449100800000)\<bar> > 50
                   then 0.3 else 0)
                - (if \<bar>currentYear env_utc - localYear env_utc (- 1449100800000)\<bar> > 100
                   then 0.4 else 0)
                + (if CHR ''/'' \<in> set ''31.1.1924'' \<or> CHR ''-'' \<in> set ''31.1.1924'' then 0.1 else 0)
                + (if fourDigitRun ''31.1.1924'' then 0.1 else 0)
                + (if monthNameIn ''31.1.1924'' then 0.1 else 0)) = 1 / 5"
    unfolding y by (simp add: d m clamp01_def)
  have n: "(7205759403792793 / 36028797018963968 :: real) \<noteq> 1 / 5" by simp
  from x c f n show ?thesis by simp
qed

lemma mathMin_Some: "ts \<noteq> [] \<Longrightarrow> mathMin (map Some ts) = Some (Min (set ts))"
proof (induction ts)
  case Nil
  then show ?case by simp
next
  case (Cons t ts)
  show ?case
  proof (cases ts)
    case Nil
    then show ?thesis by simp
  next
    case (Cons u us)
    with Cons.IH have "mathMin (map Some ts) = Some (Min (set ts))" by simp
    then show ?thesis using Cons by (simp add: min.commute)
  qed
qed

lemma mathMax_Some: "ts \<noteq> [] \<Longrightarrow> mathMax (map Some ts) = Some (Max (set ts))"
proof (induction ts)
  case Nil
  then show ?case by simp
next
  case (Cons t ts)
  show ?case
  proof (cases ts)
    case Nil
    then show ?thesis by simp
  next
    case (Cons u us)
    with Cons.IH have "mathMax (map Some ts) = Some (Max (set ts))" by simp
    then show ?thesis using Cons by (simp add: max.commute)
  qed
qed

lemma mathMin_None: "None \<in> set xs \<Longrightarrow> mathMin xs = None"
  by (induction xs rule: mathMin.induct) (auto split: option.splits)

lemma mathMax_None: "None \<in> set xs \<Longrightarrow> mathMax xs = None"
  by (induction xs rule: mathMax.induct) (auto split: option.splits)

lemma all_Some_or_None:
  "(\<exists>ts. xs = map Some ts) \<or> None \<in> set xs"
proof (induction xs)
  case Nil
  show ?case by simp
next
  case (Cons x xs)
  show ?case
  proof (cases x)
    case None
    then show ?thesis by simp
  next
    case (Some t)
    from Cons show ?thesis
    proof
      assume "\<exists>ts. xs = map Some ts"
      then obtain ts where "xs = map Some ts" by blast
      with Some have "x # xs = map Some (t # ts)" by simp
      then have "\<exists>ts. x # xs = map Some ts" ..
      then show ?thesis ..
    next
      assume "None \<in> set xs"
      then show ?thesis by simp
    qed
  qed
qed

lemma days_le_30: "real_of_int d / (1000 * 60 * 60 * 24) \<le> 30 \<longleftrightarrow> d \<le> 30 * msPerDay"
proof -
  have "real_of_int d / (1000 * 60 * 60 * 24) \<le> 30 \<longleftrightarrow> real_of_int d \<le> real_of_int 2592000000"
    by (simp add: field_simps)
  also have "\<dots> \<longleftrightarrow> d \<le> 2592000000" by (simp only: of_int_le_iff)
  finally show ?thesis by (simp add: msPerDay_def)
qed

text \<open>
  C3. \<^verbatim>\<open>analyzeDateConsistency\<close> keeps the entries with a present date (the entry is not
  \<^verbatim>\<open>null\<close> and its \<^verbatim>\<open>Date\<close> is neither \<^verbatim>\<open>null\<close> nor the empty string). With fewer than two of
  them it answers \<^verbatim>\<open>Unknown\<close>; with two or more it answers \<^verbatim>\<open>Consistent\<close> when the span from
  the earliest to the latest date is at most 30 days, and \<^verbatim>\<open>Inconsistent\<close> otherwise (also
  when one of the date strings is not a valid date).
\<close>

theorem consistency_cases:
  "(length (List.map_filter presentDate [a, b, c]) < 2
      \<longrightarrow> analyzeDateConsistency e a b c = Unknown) \<and>
   (2 \<le> length (List.map_filter presentDate [a, b, c]) \<and>
    spanWithin30Days e (List.map_filter presentDate [a, b, c])
      \<longrightarrow> analyzeDateConsistency e a b c = Consistent) \<and>
   (2 \<le> length (List.map_filter presentDate [a, b, c]) \<and>
    \<not> spanWithin30Days e (List.map_filter presentDate [a, b, c])
      \<longrightarrow> analyzeDateConsistency e a b c = Inconsistent)"
proof -
  define ds where "ds = List.map_filter presentDate [a, b, c]"
  have an: "analyzeDateConsistency e a b c =
      (if length ds < 2 then Unknown
       else (case (mathMax (map (newDateFromString e) ds), mathMin (map (newDateFromString e) ds)) of
               (Some mx, Some mn) \<Rightarrow>
                 (if real_of_int (mx - mn) / (1000 * 60 * 60 * 24) \<le> 30
                  then Consistent else Inconsistent)
             | _ \<Rightarrow> Inconsistent))"
    unfolding analyzeDateConsistency_def Let_def ds_def ..
  have 1: "length ds < 2 \<longrightarrow> analyzeDateConsistency e a b c = Unknown"
    by (simp add: an)
  have 2: "analyzeDateConsistency e a b c =
      (if spanWithin30Days e ds then Consistent else Inconsistent)" if len: "2 \<le> length ds"
  proof -
    from len have ne: "ds \<noteq> []" by auto
    from all_Some_or_None[of "map (newDateFromString e) ds"] show ?thesis
    proof
      assume "\<exists>ts. map (newDateFromString e) ds = map Some ts"
      then obtain ts where ts: "map (newDateFromString e) ds = map Some ts" by blast
      with ne have tne: "ts \<noteq> []" by auto
      have sp: "spanWithin30Days e ds \<longleftrightarrow> Max (set ts) - Min (set ts) \<le> 30 * msPerDay"
        unfolding spanWithin30Days_def ts by (auto simp: inj_map_eq_map[OF inj_Some])
      show ?thesis
        using len
        by (simp add: an ts mathMin_Some[OF tne] mathMax_Some[OF tne] days_le_30 sp msPerDay_def
            del: of_int_diff)
    next
      assume n: "None \<in> set (map (newDateFromString e) ds)"
      have "\<not> spanWithin30Days e ds"
      proof
        assume "spanWithin30Days e ds"
        then obtain ts where "map (newDateFromString e) ds = map Some ts"
          unfolding spanWithin30Days_def by blast
        with n have "None \<in> set (map Some ts)" by simp
        then show False by auto
      qed
      then show ?thesis
        using len by (simp add: an mathMin_None[OF n] mathMax_None[OF n])
    qed
  qed
  from 1 2 show ?thesis unfolding ds_def by auto
qed

theorem consistency_cases_witness:
  "analyzeDateConsistency env_utc
     (Some \<lparr>Date = Some ''2024-03-14'', Format = None, Confidence = 1, ExtractedFromText = None\<rparr>)
     None (Some \<lparr>Date = None, Format = None, Confidence = 0, ExtractedFromText = None\<rparr>) = Unknown \<and>
   analyzeDateConsistency env_utc
     (Some \<lparr>Date = Some ''2024-03-14'', Format = None, Confidence = 1, ExtractedFromText = None\<rparr>)
     (Some \<lparr>Date = Some ''2024-03-16'', Format = None, Confidence = 1, ExtractedFromText = None\<rparr>)
     None = Consistent \<and>
   analyzeDateConsistency env_utc
     (Some \<lparr>Date = Some ''2024-03-14'', Format = None, Confidence = 1, ExtractedFromText = None\<rparr>)
     None
     (Some \<lparr>Date = Some ''1924-03-16'', Format = None, Confidence = 1, ExtractedFromText = None\<rparr>)
     = Inconsistent"
proof -
  let ?a = "Some \<lparr>Date = Some ''2024-03-14'', Format = None, Confidence = 1, ExtractedFromText = None\<rparr>"
  let ?b = "Some \<lparr>Date = Some ''2024-03-16'', Format = None, Confidence = 1, ExtractedFromText = None\<rparr>"
  let ?c = "Some \<lparr>Date = Some ''1924-03-16'', Format = None, Confidence = 1, ExtractedFromText = None\<rparr>"
  let ?n = "Some \<lparr>Date = None, Format = None, Confidence = 0, ExtractedFromText = None\<rparr>"
  have p1: "List.map_filter presentDate [?a, None, ?n] = [''2024-03-14'']"
    by (simp add: List.map_filter_simps presentDate_def)
  have p2: "List.map_filter presentDate [?a, ?b, None] = [''2024-03-14'', ''2024-03-16'']"
    by (simp add: List.map_filter_simps presentDate_def)
  have p3: "List.map_filter presentDate [?a, None, ?c] = [''2024-03-14'', ''1924-03-16'']"
    by (simp add: List.map_filter_simps presentDate_def)
  have v1: "newDateFromString env_utc ''2024-03-14'' = Some 1710374400000" by code_simp
  have v2: "newDateFromString env_utc ''2024-03-16'' = Some 1710547200000" by code_simp
  have v3: "newDateFromString env_utc ''1924-03-16'' = Some (- 1445212800000)" by code_simp
  have s2: "spanWithin30Days env_utc [''2024-03-14'', ''2024-03-16'']"
    unfolding spanWithin30Days_def
    by (rule exI[of _ "[1710374400000, 1710547200000]"]) (simp add: v1 v2 msPerDay_def)
  have s3: "\<not> spanWithin30Days env_utc [''2024-03-14'', ''1924-03-16'']"
    unfolding spanWithin30Days_def
  proof
    assume "\<exists>ts. map (newDateFromString env_utc) [''2024-03-14'', ''1924-03-16''] = map Some ts \<and>
           Max (set ts) - Min (set ts) \<le> 30 * msPerDay"
    then show False by (auto simp: v1 v3 msPerDay_def)
  qed
  from consistency_cases[of ?a None ?n env_utc] consistency_cases[of ?a ?b None env_utc]
    consistency_cases[of ?a None ?c env_utc] s2 s3
  show ?thesis unfolding p1 p2 p3 by simp
qed

lemma DaysInYear_ge: "365 \<le> DaysInYear y"
  by (simp add: DaysInYear_def)

lemma year_walk_bounds:
  "0 \<le> d \<Longrightarrow> d < 365 * int n \<Longrightarrow> year_walk n y d = (y', d') \<Longrightarrow>
     0 \<le> d' \<and> d' < DaysInYear y' \<and> y \<le> y' \<and> y' \<le> y + int n"
proof (induction n arbitrary: y d)
  case 0
  then show ?case by simp
next
  case (Suc n)
  show ?case
  proof (cases "d < DaysInYear y")
    case True
    with Suc.prems show ?thesis by simp
  next
    case False
    with Suc.prems have w: "year_walk n (y + 1) (d - DaysInYear y) = (y', d')" by simp
    have "0 \<le> d - DaysInYear y" using False by simp
    moreover have "d - DaysInYear y < 365 * int n"
      using Suc.prems(2) DaysInYear_ge[of y] by simp
    ultimately have "0 \<le> d' \<and> d' < DaysInYear y' \<and> y + 1 \<le> y' \<and> y' \<le> y + 1 + int n"
      using Suc.IH w by blast
    then show ?thesis by simp
  qed
qed

lemma yearDay_bounds:
  assumes "yearDay day = (y, d)"
  shows "0 \<le> d \<and> d < DaysInYear y \<and>
         2000 + 400 * ((day - DayFromYear 2000) div 146097) \<le> y \<and>
         y \<le> 2401 + 400 * ((day - DayFromYear 2000) div 146097)"
proof -
  let ?z = "day - DayFromYear 2000"
  have w: "year_walk 401 (2000 + 400 * (?z div 146097)) (?z mod 146097) = (y, d)"
    using assms by (simp add: yearDay_def Let_def)
  have "0 \<le> ?z mod 146097" by simp
  moreover have "?z mod 146097 < 365 * int 401"
  proof -
    have "?z mod 146097 < 146097" by simp
    then show ?thesis by simp
  qed
  ultimately show ?thesis using year_walk_bounds[OF _ _ w] by simp
qed

lemma month_walk_bounds:
  "\<forall>l \<in> set ls. l \<le> 31 \<Longrightarrow> 0 \<le> d \<Longrightarrow> d < sum_list ls \<Longrightarrow> month_walk ls m d = (m', d') \<Longrightarrow>
     m \<le> m' \<and> m' < m + int (length ls) \<and> 0 \<le> d' \<and> d' < 31"
proof (induction ls arbitrary: m d)
  case Nil
  then show ?case by simp
next
  case (Cons l ls)
  show ?case
  proof (cases "d < l")
    case True
    with Cons.prems show ?thesis by auto
  next
    case False
    with Cons.prems have w: "month_walk ls (m + 1) (d - l) = (m', d')" by simp
    have "\<forall>l \<in> set ls. l \<le> 31" using Cons.prems(1) by simp
    moreover have "0 \<le> d - l" using False by simp
    moreover have "d - l < sum_list ls" using Cons.prems(3) by simp
    ultimately have "m + 1 \<le> m' \<and> m' < m + 1 + int (length ls) \<and> 0 \<le> d' \<and> d' < 31"
      using Cons.IH w by blast
    then show ?thesis by simp
  qed
qed

lemma monthLengths_sum: "sum_list (monthLengths y) = DaysInYear y"
  by (simp add: monthLengths_def DaysInYear_def)

lemma monthLengths_le: "\<forall>l \<in> set (monthLengths y). l \<le> 31"
  by (simp add: monthLengths_def)

lemma monthDate_bounds:
  assumes "monthDate t = (m, d)"
  shows "0 \<le> m \<and> m < 12 \<and> 0 \<le> d \<and> d < 31"
proof -
  obtain y doy where yd: "yearDay (Day t) = (y, doy)" by (cases "yearDay (Day t)")
  with assms have w: "month_walk (monthLengths y) 0 doy = (m, d)"
    by (simp add: monthDate_def)
  from yearDay_bounds[OF yd] have "0 \<le> doy" "doy < sum_list (monthLengths y)"
    by (simp_all add: monthLengths_sum)
  from month_walk_bounds[OF monthLengths_le this w] show ?thesis
    by (simp add: monthLengths_def)
qed

lemma month_range: "1 \<le> MonthFromTime t + 1 \<and> MonthFromTime t + 1 \<le> 12"
  using monthDate_bounds[of t "fst (monthDate t)" "snd (monthDate t)"]
  by (simp add: MonthFromTime_def)

lemma date_range: "1 \<le> DateFromTime t \<and> DateFromTime t \<le> 31"
  using monthDate_bounds[of t "fst (monthDate t)" "snd (monthDate t)"]
  by (simp add: DateFromTime_def)

lemma year_range:
  assumes "\<bar>t\<bar> \<le> 8640000000000000"
  shows "- 999999 \<le> YearFromTime t \<and> YearFromTime t \<le> 999999"
proof -
  obtain y d where yd: "yearDay (Day t) = (y, d)" by (cases "yearDay (Day t)")
  let ?q = "(Day t - DayFromYear 2000) div 146097"
  from yearDay_bounds[OF yd] have y: "2000 + 400 * ?q \<le> y" "y \<le> 2401 + 400 * ?q" by simp_all
  have "- 100000000 \<le> Day t" "Day t \<le> 100000000"
    using assms by (simp_all add: Day_def msPerDay_def)
  then have "- 100010957 \<le> Day t - DayFromYear 2000" "Day t - DayFromYear 2000 \<le> 100000000"
    by (simp_all add: DayFromYear_def)
  then have "- 685 \<le> ?q" "?q \<le> 685" by linarith+
  with y have "- 999999 \<le> y \<and> y \<le> 999999" by simp
  then show ?thesis using yd by (simp add: YearFromTime_def)
qed


lemma digitChar_digit: "0 \<le> d \<Longrightarrow> d < 10 \<Longrightarrow> isDigit (digitChar d)"
proof -
  assume "0 \<le> d" "d < 10"
  then have "nat d < length ''0123456789''" by simp
  then have "''0123456789'' ! nat d \<in> set ''0123456789''" by (rule nth_mem)
  then show ?thesis unfolding digitChar_def isDigit_iff .
qed

lemma dec_digits: "0 \<le> n \<Longrightarrow> list_all isDigit (dec n)"
proof (induction n rule: dec.induct)
  case (1 n)
  show ?case
  proof (cases "n < 10")
    case True
    with "1.prems" show ?thesis by (subst dec.simps) (simp add: digitChar_digit)
  next
    case False
    with "1.prems" have "list_all isDigit (dec (n div 10))" using "1.IH" by simp
    moreover have "isDigit (digitChar (n mod 10))" by (rule digitChar_digit) simp_all
    ultimately show ?thesis using False by (subst dec.simps) simp
  qed
qed

lemma dec_length: "0 < k \<Longrightarrow> 0 \<le> n \<Longrightarrow> n < 10 ^ k \<Longrightarrow> length (dec n) \<le> k"
proof (induction k arbitrary: n)
  case 0
  then show ?case by simp
next
  case (Suc k)
  show ?case
  proof (cases "n < 10")
    case True
    then show ?thesis by (subst dec.simps) simp
  next
    case False
    then have k: "0 < k" using Suc.prems(3) by (cases k) simp_all
    have "n div 10 < 10 ^ k" using Suc.prems(3) by simp
    moreover have "0 \<le> n div 10" using Suc.prems(2) by simp
    ultimately have "length (dec (n div 10)) \<le> k" using Suc.IH k by blast
    then show ?thesis using False by (subst dec.simps) simp
  qed
qed

lemma pad_shape:
  assumes "0 < w" and "0 \<le> n" and "n < 10 ^ w"
  shows "length (pad w n) = w \<and> list_all isDigit (pad w n)"
proof -
  have "length (dec n) \<le> w" by (rule dec_length[OF assms])
  moreover have "list_all isDigit (dec n)" by (rule dec_digits[OF assms(2)])
  moreover have "isDigit CHR ''0''" by simp
  ultimately show ?thesis by (auto simp: pad_def list_all_iff)
qed

lemma monthDay_shape:
  assumes "length a = 2" "list_all isDigit a" "length b = 2" "list_all isDigit b"
  shows "monthDayShape (''-'' @ a @ ''-'' @ b)"
proof -
  from assms(1) obtain a0 a1 where a: "a = [a0, a1]"
    by (auto simp: length_Suc_conv numeral_2_eq_2)
  from assms(3) obtain b0 b1 where b: "b = [b0, b1]"
    by (auto simp: length_Suc_conv numeral_2_eq_2)
  show ?thesis using assms(2,4) unfolding a b by (simp add: monthDayShape_def)
qed

lemma isoDatePart_shape:
  assumes "\<bar>t\<bar> \<le> 8640000000000000"
  shows "if 0 \<le> YearFromTime t \<and> YearFromTime t \<le> 9999 then isoDateShape (isoDatePart t)
         else isoExpandedShape (isoDatePart t)"
proof -
  let ?md = "''-'' @ pad 2 (MonthFromTime t + 1) @ ''-'' @ pad 2 (DateFromTime t)"
  have m: "length (pad 2 (MonthFromTime t + 1)) = 2 \<and> list_all isDigit (pad 2 (MonthFromTime t + 1))"
    using month_range[of t] by (intro pad_shape) simp_all
  have d: "length (pad 2 (DateFromTime t)) = 2 \<and> list_all isDigit (pad 2 (DateFromTime t))"
    using date_range[of t] by (intro pad_shape) simp_all
  from m d have md: "monthDayShape ?md" by (intro monthDay_shape) simp_all
  have lmd: "length ?md = 6" using m d by simp
  have part: "isoDatePart t = isoYear (YearFromTime t) @ ?md" by (simp add: isoDatePart_def)
  show ?thesis
  proof (cases "0 \<le> YearFromTime t \<and> YearFromTime t \<le> 9999")
    case True
    then have y: "length (pad 4 (YearFromTime t)) = 4 \<and> list_all isDigit (pad 4 (YearFromTime t))"
      by (intro pad_shape) simp_all
    from True have iy: "isoYear (YearFromTime t) = pad 4 (YearFromTime t)"
      by (simp add: isoYear_def)
    have h: "isoDateShape (isoYear (YearFromTime t) @ ?md)"
      unfolding iy isoDateShape_def using y md lmd by simp
    show ?thesis unfolding part by (simp only: if_P[OF True] h)
  next
    case False
    from year_range[OF assms] have "\<bar>YearFromTime t\<bar> < 1000000" by linarith
    then have "\<bar>YearFromTime t\<bar> < 10 ^ 6" by simp
    then have y: "length (pad 6 \<bar>YearFromTime t\<bar>) = 6 \<and> list_all isDigit (pad 6 \<bar>YearFromTime t\<bar>)"
      by (intro pad_shape) simp_all
    have iy: "isoYear (YearFromTime t) =
        (if YearFromTime t < 0 then ''-'' else ''+'') @ pad 6 \<bar>YearFromTime t\<bar>"
      unfolding isoYear_def by (simp only: if_not_P[OF False])
    have h: "isoExpandedShape (isoYear (YearFromTime t) @ ?md)"
      unfolding iy isoExpandedShape_def using y md lmd by simp
    show ?thesis unfolding part by (simp only: if_not_P[OF False] h)
  qed
qed

lemma TimeClip_bound: "TimeClip v = Some t \<Longrightarrow> \<bar>t\<bar> \<le> 8640000000000000"
  by (simp add: TimeClip_def split: if_splits)

lemma newDate_bound: "newDate e y m d = Some t \<Longrightarrow> \<bar>t\<bar> \<le> 8640000000000000"
  unfolding newDate_def Let_def by (rule TimeClip_bound)

lemma newDateFromString_bound: "newDateFromString e s = Some t \<Longrightarrow> \<bar>t\<bar> \<le> 8640000000000000"
  by (auto simp: newDateFromString_def split: option.splits dest: TimeClip_bound)

lemma parseDate_newDate:
  "parseDate e s f = Some d \<Longrightarrow> d = None \<or> (\<exists>y m dd. d = newDate e y m dd)"
proof (cases "includesStr f ''MMM'' \<or> includesStr f ''MMMM''")
  case True
  assume p: "parseDate e s f = Some d"
  show ?thesis
  proof (cases "startsWith f ''DD''")
    case dd: True
    from p True dd show ?thesis
      unfolding parseDate_def Let_def
      by (simp only: if_True split: prod.splits option.splits lookup.splits) blast+
  next
    case dd: False
    from p True dd show ?thesis
      unfolding parseDate_def Let_def
      by (simp only: if_True if_False split: prod.splits option.splits lookup.splits) blast+
  qed
next
  case False
  assume p: "parseDate e s f = Some d"
  show ?thesis
  proof (cases "startsWith f ''YYYY''")
    case dd: True
    from p False dd show ?thesis
      unfolding parseDate_def Let_def
      by (simp only: if_True if_False split: prod.splits option.splits) blast+
  next
    case dd: False
    from p False dd show ?thesis
      unfolding parseDate_def Let_def
      by (simp only: if_True if_False split: prod.splits option.splits) blast+
  qed
qed

lemma pad_digits: "0 \<le> n \<Longrightarrow> list_all isDigit (pad w n)"
  using dec_digits[of n] by (auto simp: pad_def list_all_iff)

lemma digits_no_T: "list_all isDigit xs \<Longrightarrow> CHR ''T'' \<notin> set xs"
proof
  assume "list_all isDigit xs" and "CHR ''T'' \<in> set xs"
  then have "isDigit CHR ''T''" unfolding list_all_iff by blast
  then show False by simp
qed

lemma isoYear_no_T: "CHR ''T'' \<notin> set (isoYear y)"
proof (cases "0 \<le> y \<and> y \<le> 9999")
  case True
  then have "list_all isDigit (pad 4 y)" by (intro pad_digits) simp
  from digits_no_T[OF this] True show ?thesis by (simp add: isoYear_def)
next
  case False
  have "list_all isDigit (pad 6 \<bar>y\<bar>)" by (intro pad_digits) simp
  from digits_no_T[OF this] have "CHR ''T'' \<notin> set ((if y < 0 then ''-'' else ''+'') @ pad 6 \<bar>y\<bar>)"
    by simp
  then show ?thesis unfolding isoYear_def by (simp only: if_not_P[OF False] not_False_eq_True)
qed

lemma isoDatePart_no_T: "CHR ''T'' \<notin> set (isoDatePart t)"
proof -
  have "list_all isDigit (pad 2 (MonthFromTime t + 1))"
    using month_range[of t] by (intro pad_digits) simp
  then have m: "CHR ''T'' \<notin> set (pad 2 (MonthFromTime t + 1))" by (rule digits_no_T)
  have "list_all isDigit (pad 2 (DateFromTime t))"
    using date_range[of t] by (intro pad_digits) simp
  then have d: "CHR ''T'' \<notin> set (pad 2 (DateFromTime t))" by (rule digits_no_T)
  show ?thesis
    using isoYear_no_T[of "YearFromTime t"] m d by (simp add: isoDatePart_def)
qed

lemma toISOString_date:
  assumes "toISOString d = Inr s"
  shows "\<exists>t. d = Some t \<and> beforeT s = isoDatePart t"
proof (cases d)
  case None
  with assms show ?thesis by (simp add: toISOString_def)
next
  case (Some t)
  have "toISOString (Some t) = Inr (isoDatePart t @ CHR ''T'' #
      (pad 2 (t mod msPerDay div 3600000) @ '':'' @ pad 2 (t mod msPerDay div 60000 mod 60) @ '':'' @
       pad 2 (t mod msPerDay div 1000 mod 60) @ ''.'' @ pad 3 (t mod msPerDay mod 1000) @ ''Z''))"
    by (simp add: toISOString_def isoDatePart_def Let_def)
  with assms Some obtain rest where "s = isoDatePart t @ CHR ''T'' # rest"
    by auto
  then have "beforeT s = isoDatePart t"
    using isoDatePart_no_T[of t] by (auto simp: beforeT_def takeWhile_tail)
  with Some show ?thesis by simp
qed

lemma parseFallback_date:
  assumes "parseFallback e s = Inr (Some i)"
  shows "\<exists>t. \<bar>t\<bar> \<le> 8640000000000000 \<and> Date i = Some (isoDatePart t)"
proof -
  from assms obtain str where s: "toISOString (newDateFromString e s) = Inr str"
    "Date i = Some (beforeT str)"
    by (auto simp: parseFallback_def Let_def split: if_splits sum.splits)
  from toISOString_date[OF s(1)] obtain t where t: "newDateFromString e s = Some t"
    "beforeT str = isoDatePart t" by blast
  from newDateFromString_bound[OF t(1)] t(2) s(2) show ?thesis by auto
qed

lemma parseFormats_date:
  "parseFormats e s fm = Inr (Some i) \<Longrightarrow>
     \<exists>t. \<bar>t\<bar> \<le> 8640000000000000 \<and> Date i = Some (isoDatePart t)"
proof (induction fm)
  case Nil
  then show ?case using parseFallback_date[of e s i] by simp
next
  case (Cons a fm)
  obtain f p where a: "a = (f, p)" by (cases a)
  show ?case
  proof (cases "rsearch p s \<and> parseDate e s f \<noteq> None")
    case False
    with Cons.prems have "parseFormats e s fm = Inr (Some i)"
      unfolding a by (auto split: if_splits option.splits)
    then show ?thesis by (rule Cons.IH)
  next
    case True
    then obtain d where d: "parseDate e s f = Some d" by auto
    with True Cons.prems obtain str where s: "toISOString d = Inr str" "Date i = Some (beforeT str)"
      unfolding a by (auto split: sum.splits)
    from toISOString_date[OF s(1)] obtain t where t: "d = Some t" "beforeT str = isoDatePart t"
      by blast
    from parseDate_newDate[OF d] t(1) obtain y m dd where "newDate e y m dd = Some t" by auto
    from newDate_bound[OF this] t(2) s(2) show ?thesis by auto
  qed
qed

text \<open>
  C10, as amended. Whenever \<^verbatim>\<open>extractDateFromText\<close> returns a record, its \<^verbatim>\<open>Date\<close> is the date part
  of the ISO-8601 timestamp of a valid time value, in UTC: of the shape \<^verbatim>\<open>YYYY-MM-DD\<close> when the
  year lies between 0 and 9999, and of the expanded shape \<^verbatim>\<open>+YYYYYY-MM-DD\<close> or
  \<^verbatim>\<open>-YYYYYY-MM-DD\<close> otherwise.
\<close>

theorem result_date_iso_shape:
  "extractDateFromText e text = Inr (Some r) \<Longrightarrow>
     \<exists>t. Date r = Some (isoDatePart t) \<and>
         (if 0 \<le> YearFromTime t \<and> YearFromTime t \<le> 9999 then isoDateShape (isoDatePart t)
          else isoExpandedShape (isoDatePart t))"
proof -
  assume "extractDateFromText e text = Inr (Some r)"
  from extract_Some_keep[OF this] obtain m where "keep e m = Some r" by blast
  from keep_parse[OF this] obtain d where d: "parseFormats e m DATE_FORMAT_MAP = Inr (Some d)"
    "r = d\<lparr>ExtractedFromText := Some m\<rparr>" by blast
  from parseFormats_date[OF d(1)] obtain t where t: "\<bar>t\<bar> \<le> 8640000000000000"
    "Date d = Some (isoDatePart t)" by blast
  from t(2) d(2) have "Date r = Some (isoDatePart t)" by simp
  with isoDatePart_shape[OF t(1)] show ?thesis by blast
qed

text \<open>
  C10, as stated, fails: the day 32 of December 9999 is carried over into the year 10000,
  which \<^verbatim>\<open>toISOString\<close> writes with a sign and six digits.
\<close>

theorem result_date_iso_shape_counterexample:
  "extractDateFromText env_utc ''32/12/9999'' =
     Inr (Some \<lparr>Date = Some ''+010000-01-01'', Format = Some ''DD/MM/YYYY'',
                Confidence = double 0.3,
                ExtractedFromText = Some ''32/12/9999''\<rparr>) \<and>
   \<not> isoDateShape ''+010000-01-01''"
proof -
  have "extractDateFromText env_utc ''32/12/9999'' =
     Inr (Some \<lparr>Date = Some ''+010000-01-01'', Format = Some ''DD/MM/YYYY'',
                Confidence = double 0.3,
                ExtractedFromText = Some ''32/12/9999''\<rparr>)"
    by code_simp
  moreover have "\<not> isoDateShape ''+010000-01-01''"
    by (simp add: isoDateShape_def)
  ultimately show ?thesis by simp
qed

theorem result_date_iso_shape_witness:
  "extractDateFromText env_utc ''Signed on 15/03/2024'' =
     Inr (Some \<lparr>Date = Some ''2024-03-15'', Format = Some ''DD/MM/YYYY'', Confidence = 1,
                ExtractedFromText = Some ''15/03/2024''\<rparr>) \<and>
   (\<exists>t. Some ''2024-03-15'' = Some (isoDatePart t) \<and>
        (if 0 \<le> YearFromTime t \<and> YearFromTime t \<le> 9999 then isoDateShape (isoDatePart t)
         else isoExpandedShape (isoDatePart t)))"
proof -
  have ev: "extractDateFromText env_utc ''Signed on 15/03/2024'' =
     Inr (Some \<lparr>Date = Some ''2024-03-15'', Format = Some ''DD/MM/YYYY'', Confidence = 1,
                ExtractedFromText = Some ''15/03/2024''\<rparr>)"
    by code_simp
  from result_date_iso_shape[OF ev] ev show ?thesis by simp
qed

lemma isoDatePart_Day: "Day t = Day t' \<Longrightarrow> isoDatePart t = isoDatePart t'"
  by (simp add: isoDatePart_def YearFromTime_def MonthFromTime_def DateFromTime_def monthDate_def)

lemma scan_at_one: "scanMatches e ms (b, 1) = Inr (b, 1)"
proof (induction ms)
  case Nil
  show ?case by simp
next
  case (Cons m ms)
  show ?case
  proof (cases "keep e m")
    case None
    then have "parseAndValidateDate e m = Inr None"
      using parseAndValidateDate_total[of e m]
      by (auto simp: keep_def split: sum.splits option.splits)
    then show ?thesis using Cons.IH by simp
  next
    case (Some i)
    from keep_parse[OF Some] obtain d where d: "parseAndValidateDate e m = Inr (Some d)"
      "i = d\<lparr>ExtractedFromText := Some m\<rparr>" by blast
    from keep_conf[OF Some] d(2) have "\<not> Confidence d > 1" by simp
    with d(1) show ?thesis using Cons.IH by simp
  qed
qed

lemma amaravathi_candidates:
  "candidates ''Inspector General of Police APSP Bns, Amaravathi 22-03-2024'' =
     [''22-03-2024'', ''22-03-2024'', ''22-03-20'']"
  by code_simp

lemma amaravathi_formats:
  "\<not> rsearch [dig 1 2, Rep (OneOf ''/'') 1 (Some 1), dig 1 2, Rep (OneOf ''/'') 1 (Some 1), dig 4 4]
       ''22-03-2024''"
  "rsearch [dig 1 2, Rep (OneOf ''-'') 1 (Some 1), dig 1 2, Rep (OneOf ''-'') 1 (Some 1), dig 4 4]
     ''22-03-2024''"
  by code_simp+

lemma amaravathi_parseDate:
  "parseDate e ''22-03-2024'' ''DD-MM-YYYY'' = Some (newDate e 2024 2 22)"
  by code_simp

lemma amaravathi_tests:
  "\<not> includesStr ''22-03-2024'' ''/''" "includesStr ''22-03-2024'' ''-''"
  "rsearch [dig 4 4] ''22-03-2024''" "\<not> rsearch [Words True monthAbbrevs] ''22-03-2024''"
  by code_simp+

lemma amaravathi_days:
  "MakeDay 2024 2 22 = 19804"
  "isoDatePart (19803 * msPerDay) = ''2024-03-21''"
  "isoDatePart (19804 * msPerDay) = ''2024-03-22''"
  "YearFromTime 1711065600000 = 2024"
  by code_simp+


lemma amaravathi_parse:
  assumes "newDate e 2024 2 22 = Some t"
  shows "parseAndValidateDate e ''22-03-2024'' =
     Inr (Some \<lparr>Date = Some (isoDatePart t), Format = Some ''DD-MM-YYYY'',
                Confidence = calculateDateConfidence e ''22-03-2024'' (Some t),
                ExtractedFromText = Some ''22-03-2024''\<rparr>)"
proof -
  obtain str where str: "toISOString (Some t) = Inr str"
    by (simp add: toISOString_def Let_def)
  from toISOString_date[OF str] have b: "beforeT str = isoDatePart t" by simp
  have "parseFormats e ''22-03-2024'' DATE_FORMAT_MAP =
     Inr (Some \<lparr>Date = Some (isoDatePart t), Format = Some ''DD-MM-YYYY'',
                Confidence = calculateDateConfidence e ''22-03-2024'' (Some t),
                ExtractedFromText = Some ''22-03-2024''\<rparr>)"
    unfolding DATE_FORMAT_MAP_def
    by (simp only: parseFormats.simps amaravathi_formats if_True if_False amaravathi_parseDate
        assms option.case str sum.case b)
  then show ?thesis by (simp add: parseAndValidateDate_def)
qed

lemma amaravathi_confidence:
  assumes "localYear e t = 2024" and "\<bar>currentYear e - 2024\<bar> \<le> 50"
  shows "calculateDateConfidence e ''22-03-2024'' (Some t) = 1"
proof -
  have c: "\<not> \<bar>currentYear e - 2024\<bar> > 50" "\<not> \<bar>currentYear e - 2024\<bar> > 100"
    using assms(2) by simp_all
  have "calculateDateConfidence e ''22-03-2024'' (Some t) =
      min (max (double (double (double 0.8 + double 0.1) + double 0.1)) 0) 1"
    unfolding cdc_eq assms(1) Let_def
    by (simp only: c amaravathi_tests if_True if_False HOL.simp_thms)
  then show ?thesis by (simp add: double_values)
qed

lemma amaravathi_general:
  assumes "newDate e 2024 2 22 = Some t" and "localYear e t = 2024"
    and "\<bar>currentYear e - 2024\<bar> \<le> 50"
  shows "extractDateFromText e ''Inspector General of Police APSP Bns, Amaravathi 22-03-2024'' =
     Inr (Some \<lparr>Date = Some (isoDatePart t), Format = Some ''DD-MM-YYYY'', Confidence = 1,
                ExtractedFromText = Some ''22-03-2024''\<rparr>)"
  unfolding extract_scan amaravathi_candidates
  by (simp add: amaravathi_parse[OF assms(1)] amaravathi_confidence[OF assms(2,3)] scan_at_one)

lemma amaravathi_east_of_utc:
  assumes "LocalTZA e = (\<lambda>t isUTC. off)" and "0 < off" and "off \<le> msPerDay"
    and "\<bar>currentYear e - 2024\<bar> \<le> 50"
  shows "extractDateFromText e ''Inspector General of Police APSP Bns, Amaravathi 22-03-2024'' =
     Inr (Some \<lparr>Date = Some ''2024-03-21'', Format = Some ''DD-MM-YYYY'', Confidence = 1,
                ExtractedFromText = Some ''22-03-2024''\<rparr>)"
proof -
  let ?t = "1711065600000 - off"
  have n: "newDate e 2024 2 22 = Some ?t"
    using assms(2,3)
    by (simp add: newDate_def UTC_def assms(1) amaravathi_days TimeClip_def msPerDay_def)
  have y: "localYear e ?t = 2024"
    by (simp add: localYear_def LocalTime_def assms(1) amaravathi_days)
  have "Day ?t = Day (19803 * msPerDay)"
    using assms(2,3) by (simp add: Day_def msPerDay_def)
  from isoDatePart_Day[OF this] have "isoDatePart ?t = ''2024-03-21''"
    by (simp add: amaravathi_days)
  with amaravathi_general[OF n y assms(4)] show ?thesis by simp
qed

lemma amaravathi_west_of_utc:
  assumes "LocalTZA e = (\<lambda>t isUTC. off)" and "- msPerDay < off" and "off \<le> 0"
    and "\<bar>currentYear e - 2024\<bar> \<le> 50"
  shows "extractDateFromText e ''Inspector General of Police APSP Bns, Amaravathi 22-03-2024'' =
     Inr (Some \<lparr>Date = Some ''2024-03-22'', Format = Some ''DD-MM-YYYY'', Confidence = 1,
                ExtractedFromText = Some ''22-03-2024''\<rparr>)"
proof -
  let ?t = "1711065600000 - off"
  have n: "newDate e 2024 2 22 = Some ?t"
    using assms(2,3)
    by (simp add: newDate_def UTC_def assms(1) amaravathi_days TimeClip_def msPerDay_def)
  have y: "localYear e ?t = 2024"
    by (simp add: localYear_def LocalTime_def assms(1) amaravathi_days)
  have "Day ?t = Day (19804 * msPerDay)"
    using assms(2,3) by (simp add: Day_def msPerDay_def)
  from isoDatePart_Day[OF this] have "isoDatePart ?t = ''2024-03-22''"
    by (simp add: amaravathi_days)
  with amaravathi_general[OF n y assms(4)] show ?thesis by simp
qed

lemma amaravathi_in_utc:
  "extractDateFromText env_utc ''Inspector General of Police APSP Bns, Amaravathi 22-03-2024'' =
     Inr (Some \<lparr>Date = Some ''2024-03-22'', Format = Some ''DD-MM-YYYY'', Confidence = 1,
                ExtractedFromText = Some ''22-03-2024''\<rparr>)"
  by code_simp

text \<open>
  C5. The specification expects the date 2024-03-22, the format \<^verbatim>\<open>DD-MM-YYYY\<close> and a confidence
  of at least 0.9 for the text of the stamp of Amaravathi. The service builds the date at
  local midnight and prints it in UTC, so in Indian Standard Time, as in every zone east of
  UTC (\<open>amaravathi_east_of_utc\<close>), it returns the day before, 2024-03-21; in UTC and west
  of it the expected record is returned (\<open>amaravathi_west_of_utc\<close>).
\<close>

theorem amaravathi_in_ist:
  "extractDateFromText env_ist ''Inspector General of Police APSP Bns, Amaravathi 22-03-2024'' =
     Inr (Some \<lparr>Date = Some ''2024-03-21'', Format = Some ''DD-MM-YYYY'', Confidence = 1,
                ExtractedFromText = Some ''22-03-2024''\<rparr>)"
  by code_simp

lemma no_format_then_fallback:
  "\<forall>(f, p) \<in> set fm. \<not> rsearch p s \<Longrightarrow> parseFormats e s fm = parseFallback e s"
  by (induction fm) auto

lemma two_digit_candidate: "candidates ''Document Date: 16/03/24'' = [''16/03/24'']"
  by code_simp

lemma two_digit_no_format: "\<forall>(f, p) \<in> set DATE_FORMAT_MAP. \<not> rsearch p ''16/03/24''"
  by code_simp

lemma two_digit_year_goes_to_fallback:
  "extractDateFromText e ''Document Date: 16/03/24'' =
     (case parseFallback e ''16/03/24'' of Inr (Some i) \<Rightarrow> Inr (Some i) | _ \<Rightarrow> Inr None)"
proof -
  have p: "parseAndValidateDate e ''16/03/24'' =
      (case parseFallback e ''16/03/24'' of Inl err \<Rightarrow> Inr None | Inr r \<Rightarrow> Inr r)"
    by (simp add: parseAndValidateDate_def no_format_then_fallback[OF two_digit_no_format])
  show ?thesis
  proof (cases "parseFallback e ''16/03/24''")
    case (Inl err)
    then show ?thesis by (simp add: extract_scan two_digit_candidate p)
  next
    case (Inr r)
    show ?thesis
    proof (cases r)
      case None
      with Inr show ?thesis by (simp add: extract_scan two_digit_candidate p)
    next
      case (Some i)
      from parseFallback_conf[of e "''16/03/24''" i] parseFallback_fields[of e "''16/03/24''" i]
        Inr Some
      have c: "Confidence i = double 0.6" and x: "ExtractedFromText i \<noteq> None" by simp_all
      have "ExtractedFromText i = Some ''16/03/24''"
        using Inr Some by (auto simp: parseFallback_def Let_def split: if_splits sum.splits)
      then have "i\<lparr>ExtractedFromText := Some ''16/03/24''\<rparr> = i" by simp
      with Inr Some c show ?thesis
        by (simp add: extract_scan two_digit_candidate p double_06)
    qed
  qed
qed

lemma parseDate_expands_two_digit_year:
  "parseDate e ''16/03/24'' ''DD/MM/YYYY'' = Some (newDate e 2024 2 16)"
  by code_simp

text \<open>
  C4. The specification expects the two-digit year of \<^verbatim>\<open>16/03/24\<close> to be expanded to 2024.
  \<^verbatim>\<open>parseDate\<close> has this rule (\<open>parseDate_expands_two_digit_year\<close>), but no entry of
  \<^verbatim>\<open>DATE_FORMAT_MAP\<close> matches a date with a two-digit year, so the candidate never reaches
  \<^verbatim>\<open>parseDate\<close>: it is handed to \<^verbatim>\<open>new Date(string)\<close>
  (\<open>two_digit_year_goes_to_fallback\<close>), and with an engine that rejects \<^verbatim>\<open>16/03/24\<close> (16 is
  not a month) the extraction returns \<^verbatim>\<open>null\<close>.
\<close>

theorem two_digit_year_not_expanded:
  "extractDateFromText env_utc ''Document Date: 16/03/24'' = Inr None"
  by code_simp

end
